theory Spec2Isabelle
  imports Complex_Main "HOL-Library.Multiset"
begin

section \<open>JSON values as the Python code sees them\<close>

text \<open>
  Everything the collectors handle comes out of \<^verbatim>\<open>json.load\<close> or
  \<^verbatim>\<open>response.json()\<close>: \<^verbatim>\<open>None\<close>, booleans, numbers, strings, lists and
  dicts. A number is kept by its value (Python compares and hashes \<^verbatim>\<open>int\<close>,
  \<^verbatim>\<open>float\<close> and \<^verbatim>\<open>bool\<close> by value, so \<^verbatim>\<open>1 == 1.0 == True\<close>); the
  non-standard literals NaN and Infinity are outside the model. A string is its UTF-8
  byte list. A dict is the list of its items in insertion order, keys distinct.
\<close>

datatype json =
    JNull
  | JBool bool
  | JNum rat
  | JStr string
  | JArr "json list"
  | JObj "(string \<times> json) list"

text \<open>The exceptions met; \<^verbatim>\<open>UnicodeDecodeError\<close> is kept apart from the
  \<^verbatim>\<open>ValueError\<close> it derives from.\<close>

datatype error = TypeError | AttributeError | ValueError | UnicodeDecodeError | OSError

text \<open>Truth value of an object (\<^verbatim>\<open>if x:\<close>, \<^verbatim>\<open>not x\<close>).\<close>

fun truthy :: "json \<Rightarrow> bool" where
  "truthy JNull = False"
| "truthy (JBool b) = b"
| "truthy (JNum q) = (q \<noteq> 0)"
| "truthy (JStr s) = (s \<noteq> [])"
| "truthy (JArr xs) = (xs \<noteq> [])"
| "truthy (JObj kvs) = (kvs \<noteq> [])"

text \<open>\<^verbatim>\<open>d.get(k, default)\<close>: only a dict has the method.\<close>

definition dict_get :: "(string \<times> json) list \<Rightarrow> string \<Rightarrow> json \<Rightarrow> json" where
  "dict_get kvs k dflt = (case map_of kvs k of None \<Rightarrow> dflt | Some v \<Rightarrow> v)"

fun py_get :: "json \<Rightarrow> string \<Rightarrow> json \<Rightarrow> error + json" where
  "py_get (JObj kvs) k dflt = Inr (dict_get kvs k dflt)"
| "py_get _ k dflt = Inl AttributeError"

text \<open>\<^verbatim>\<open>xs.append(x)\<close>: only a list has the method.\<close>

fun py_append :: "json \<Rightarrow> json \<Rightarrow> error + json" where
  "py_append (JArr xs) x = Inr (JArr (xs @ [x]))"
| "py_append _ x = Inl AttributeError"

text \<open>
  \<^verbatim>\<open>for x in v\<close>: a list yields its elements, a dict its keys, a string its
  characters (here: its bytes, one string each; every use below rejects a string item
  whatever it holds), anything else is not iterable.
\<close>

fun py_iter :: "json \<Rightarrow> error + json list" where
  "py_iter (JArr xs) = Inr xs"
| "py_iter (JObj kvs) = Inr (map (\<lambda>kv. JStr (fst kv)) kvs)"
| "py_iter (JStr s) = Inr (map (\<lambda>c. JStr [c]) s)"
| "py_iter _ = Inl TypeError"

text \<open>
  Members of a Python \<^verbatim>\<open>set\<close>: lists and dicts are unhashable; the others are
  looked up by value, a boolean as the number it equals. The set
  \<^verbatim>\<open>known_donation_ids\<close> is a set of such keys.
\<close>

fun hashable :: "json \<Rightarrow> bool" where
  "hashable (JArr xs) = False"
| "hashable (JObj kvs) = False"
| "hashable _ = True"

fun py_key :: "json \<Rightarrow> json" where
  "py_key (JBool b) = JNum (if b then 1 else 0)"
| "py_key x = x"

definition py_in :: "json \<Rightarrow> json set \<Rightarrow> error + bool" where
  "py_in x s = (if hashable x then Inr (py_key x \<in> s) else Inl TypeError)"

text \<open>Equality \<^verbatim>\<open>==\<close> and order \<^verbatim>\<open><\<close> on JSON values.\<close>

fun is_number :: "json \<Rightarrow> bool" where
  "is_number (JNum q) = True"
| "is_number (JBool b) = True"
| "is_number _ = False"

fun num_val :: "json \<Rightarrow> rat" where
  "num_val (JNum q) = q"
| "num_val (JBool b) = (if b then 1 else 0)"
| "num_val _ = 0"

fun py_eq :: "json \<Rightarrow> json \<Rightarrow> bool" where
  "py_eq JNull y = (y = JNull)"
| "py_eq (JBool b) y = (is_number y \<and> num_val y = (if b then 1 else 0))"
| "py_eq (JNum q) y = (is_number y \<and> num_val y = q)"
| "py_eq (JStr s) y = (y = JStr s)"
| "py_eq (JArr xs) y = (case y of JArr ys \<Rightarrow> list_all2 py_eq xs ys | _ \<Rightarrow> False)"
| "py_eq (JObj kvs) y =
     (case y of
        JObj kws \<Rightarrow> length kvs = length kws \<and>
          list_all (\<lambda>(k, v). case map_of kws k of None \<Rightarrow> False | Some w \<Rightarrow> py_eq v w) kvs
      | _ \<Rightarrow> False)"

fun str_lt :: "string \<Rightarrow> string \<Rightarrow> bool" where
  "str_lt [] [] = False"
| "str_lt [] (d # ds) = True"
| "str_lt (c # cs) [] = False"
| "str_lt (c # cs) (d # ds) =
     (if c = d then str_lt cs ds else (of_char c :: nat) < of_char d)"

text \<open>
  \<^verbatim>\<open>x < y\<close> raises TypeError unless both are strings, both numbers, or both
  lists; \<^verbatim>\<open>None\<close> is ordered with nothing, not even itself.
\<close>

fun py_lt :: "json \<Rightarrow> json \<Rightarrow> error + bool"
and py_lt_list :: "json list \<Rightarrow> json list \<Rightarrow> error + bool" where
  "py_lt (JStr s) (JStr t) = Inr (str_lt s t)"
| "py_lt (JArr xs) (JArr ys) = py_lt_list xs ys"
| "py_lt x y =
     (if is_number x \<and> is_number y then Inr (num_val x < num_val y) else Inl TypeError)"
| "py_lt_list [] [] = Inr False"
| "py_lt_list [] (y # ys) = Inr True"
| "py_lt_list (x # xs) [] = Inr False"
| "py_lt_list (x # xs) (y # ys) = (if py_eq x y then py_lt_list xs ys else py_lt x y)"

text \<open>
  \<^verbatim>\<open>float(x)\<close>: a number converts to itself (rounding to a double, and the
  overflow of a huge integer, are not modelled), a boolean to 0 or 1, a string through
  Python's parser, which is the parameter \<open>str_float\<close> (\<open>None\<close> where the parser
  raises ValueError); anything else is a TypeError.
\<close>

fun py_float :: "(string \<Rightarrow> rat option) \<Rightarrow> json \<Rightarrow> error + rat" where
  "py_float str_float (JNum q) = Inr q"
| "py_float str_float (JBool b) = Inr (if b then 1 else 0)"
| "py_float str_float (JStr s) =
     (case str_float s of None \<Rightarrow> Inl ValueError | Some q \<Rightarrow> Inr q)"
| "py_float str_float _ = Inl TypeError"

section \<open>The two JSON files\<close>

text \<open>
  What a read of \<^verbatim>\<open>donations.json\<close> or \<^verbatim>\<open>total_raised.json\<close> can meet: no
  file; a file that \<^verbatim>\<open>open\<close> or \<^verbatim>\<open>read\<close> refuses (an OSError other than
  FileNotFoundError, such as PermissionError); a file whose bytes are not text in the
  encoding \<^verbatim>\<open>open\<close> uses (\<^verbatim>\<open>read\<close> raises UnicodeDecodeError, which is a
  ValueError but no JSONDecodeError); a file of text that is not JSON
  (JSONDecodeError); a file holding a JSON value. Every read in both programs is

  \<^verbatim>\<open>
  xs = []
  if os.path.exists(path):
      try:
          with open(path, 'r') as f: xs = json.load(f)
      except (json.JSONDecodeError, FileNotFoundError):
          xs = []
  \<close>

  so of the four failures only the missing file and the JSONDecodeError give the empty
  list. A write (\<^verbatim>\<open>open(path, 'w')\<close>, \<^verbatim>\<open>json.dump\<close>) always follows a read of the same
  file that did not raise, and replaces the content; a write that fails (a read-only
  file, a full disk) is not modelled.
\<close>

datatype json_file = Absent | Unreadable | Undecodable | Malformed | Content json

fun read_or_empty :: "json_file \<Rightarrow> error + json" where
  "read_or_empty Absent = Inr (JArr [])"
| "read_or_empty Malformed = Inr (JArr [])"
| "read_or_empty Unreadable = Inl OSError"
| "read_or_empty Undecodable = Inl UnicodeDecodeError"
| "read_or_empty (Content j) = Inr j"

text \<open>The ledger a file holds, for stating properties: the list it stores, if any.\<close>

fun ledger_of :: "json_file \<Rightarrow> json list" where
  "ledger_of (Content (JArr xs)) = xs"
| "ledger_of _ = []"

text \<open>The \<^verbatim>\<open>id\<close> of a stored record and the key under which the set knows it.\<close>

fun id_of :: "json \<Rightarrow> json" where
  "id_of (JObj kvs) = dict_get kvs ''id'' JNull"
| "id_of _ = JNull"

definition id_key :: "json \<Rightarrow> json" where
  "id_key r = py_key (id_of r)"

section \<open>Loading the known ids (both files, \<^verbatim>\<open>load_existing_data\<close>)\<close>

text \<open>\<^verbatim>\<open>'id' in donation\<close>: a key test on a dict, membership on a list, a substring
  test on a string, a TypeError on the rest.\<close>

fun has_id_substr :: "string \<Rightarrow> bool" where
  "has_id_substr [] = False"
| "has_id_substr [c] = False"
| "has_id_substr (c # d # cs) = ((c = CHR ''i'' \<and> d = CHR ''d'') \<or> has_id_substr (d # cs))"

fun contains_id :: "json \<Rightarrow> error + bool" where
  "contains_id (JObj kvs) = Inr (''id'' \<in> fst ` set kvs)"
| "contains_id (JArr xs) = Inr (JStr ''id'' \<in> set xs)"
| "contains_id (JStr s) = Inr (has_id_substr s)"
| "contains_id _ = Inl TypeError"

text \<open>The set comprehension
  \<^verbatim>\<open>{donation.get('id') for donation in existing_donations if 'id' in donation}\<close>.\<close>

fun collect_ids :: "json list \<Rightarrow> error + json set" where
  "collect_ids [] = Inr {}"
| "collect_ids (d # ds) =
     (case contains_id d of
        Inl e \<Rightarrow> Inl e
      | Inr False \<Rightarrow> collect_ids ds
      | Inr True \<Rightarrow>
          (case py_get d ''id'' JNull of
             Inl e \<Rightarrow> Inl e
           | Inr v \<Rightarrow>
               if hashable v
               then (case collect_ids ds of Inl e \<Rightarrow> Inl e | Inr s \<Rightarrow> Inr (insert (py_key v) s))
               else Inl TypeError))"

text \<open>
  \<^verbatim>\<open>load_existing_data\<close>, called by \<^verbatim>\<open>__init__\<close> right after
  \<^verbatim>\<open>self.known_donation_ids = set()\<close>; the result is the set afterwards, or the
  exception that leaves the constructor.
\<close>

fun load_existing_data :: "json_file \<Rightarrow> error + json set" where
  "load_existing_data Absent = Inr {}"
| "load_existing_data Malformed = Inr {}"
| "load_existing_data Unreadable = Inl OSError"
| "load_existing_data Undecodable = Inl UnicodeDecodeError"
| "load_existing_data (Content j) =
     (case py_iter j of Inl e \<Rightarrow> Inl e | Inr ds \<Rightarrow> collect_ids ds)"

section \<open>Ingestion (\<^verbatim>\<open>save_new_donations\<close>, \<^verbatim>\<open>update_donations\<close>)\<close>

text \<open>
  The projection of a payload into a record. \<open>extra\<close> is what the variant adds:
  nothing in \<^verbatim>\<open>collecter.py\<close>, the field \<^verbatim>\<open>recorded_at\<close> in
  \<^verbatim>\<open>github_collector.py\<close>.
\<close>

definition donation_record :: "(string \<times> json) list \<Rightarrow> (string \<times> json) list \<Rightarrow> json" where
  "donation_record kvs extra =
     JObj ([(''id'', dict_get kvs ''id'' JNull),
            (''amount'', dict_get kvs ''amount'' JNull),
            (''completed_at'', dict_get kvs ''completed_at'' JNull),
            (''donor_name'', dict_get kvs ''donor_name'' JNull),
            (''donor_comment'', dict_get kvs ''donor_comment'' JNull),
            (''currency'', dict_get kvs ''currency'' JNull)] @ extra)"

text \<open>
  One pass of the loop body over the payload \<open>d\<close>, on the loop's three variables
  (\<^verbatim>\<open>self.known_donation_ids\<close>, \<^verbatim>\<open>existing_donations\<close>,
  \<^verbatim>\<open>new_donations\<close>). \<open>stamp n\<close> is the extra content of the record made when
  \<open>n\<close> records are already new in this call.
\<close>

fun ingest_entry ::
  "(nat \<Rightarrow> (string \<times> json) list) \<Rightarrow> json set \<Rightarrow> json \<Rightarrow> json list \<Rightarrow> json \<Rightarrow>
     error + (json set \<times> json \<times> json list)" where
  "ingest_entry stamp known existing new (JObj kvs) =
     (let donation_id = dict_get kvs ''id'' JNull in
      if \<not> truthy donation_id then Inr (known, existing, new)
      else
        (case py_in donation_id known of
           Inl e \<Rightarrow> Inl e
         | Inr True \<Rightarrow> Inr (known, existing, new)
         | Inr False \<Rightarrow>
             (let r = donation_record kvs (stamp (length new)) in
              case py_append existing r of
                Inl e \<Rightarrow> Inl e
              | Inr existing' \<Rightarrow> Inr (insert (py_key donation_id) known, existing', new @ [r]))))"
| "ingest_entry stamp known existing new _ = Inl AttributeError"

text \<open>
  The \<^verbatim>\<open>for\<close> loop. An exception leaves the loop with the ids added so far
  still in \<^verbatim>\<open>self.known_donation_ids\<close>; the two lists are locals and are lost.
\<close>

fun ingest_loop ::
  "(nat \<Rightarrow> (string \<times> json) list) \<Rightarrow> json set \<Rightarrow> json \<Rightarrow> json list \<Rightarrow> json list \<Rightarrow>
     (error \<times> json set) + (json set \<times> json \<times> json list)" where
  "ingest_loop stamp known existing new [] = Inr (known, existing, new)"
| "ingest_loop stamp known existing new (d # ds) =
     (case ingest_entry stamp known existing new d of
        Inl e \<Rightarrow> Inl (e, known)
      | Inr (known', existing', new') \<Rightarrow> ingest_loop stamp known' existing' new' ds)"

text \<open>
  \<^verbatim>\<open>existing_donations.sort(key=lambda x: x.get('completed_at', ''), reverse=True)\<close>.
  All keys are computed first. The sort is stable and uses only \<^verbatim>\<open><\<close> on keys;
  it is written as the insertion sort that puts an element before the first later
  one whose key is not greater. On keys that are pairwise ordered this is the list
  CPython returns; on scalar keys that are not, every comparison sort of two or more
  elements raises.
\<close>

fun sort_keys :: "json list \<Rightarrow> error + (json \<times> json) list" where
  "sort_keys [] = Inr []"
| "sort_keys (x # xs) =
     (case py_get x ''completed_at'' (JStr []) of
        Inl e \<Rightarrow> Inl e
      | Inr k \<Rightarrow> (case sort_keys xs of Inl e \<Rightarrow> Inl e | Inr ps \<Rightarrow> Inr ((k, x) # ps)))"

fun insert_desc :: "json \<times> json \<Rightarrow> (json \<times> json) list \<Rightarrow> error + (json \<times> json) list" where
  "insert_desc p [] = Inr [p]"
| "insert_desc p (q # qs) =
     (case py_lt (fst p) (fst q) of
        Inl e \<Rightarrow> Inl e
      | Inr True \<Rightarrow> (case insert_desc p qs of Inl e \<Rightarrow> Inl e | Inr rs \<Rightarrow> Inr (q # rs))
      | Inr False \<Rightarrow> Inr (p # q # qs))"

fun sort_desc :: "(json \<times> json) list \<Rightarrow> error + (json \<times> json) list" where
  "sort_desc [] = Inr []"
| "sort_desc (p # ps) =
     (case sort_desc ps of Inl e \<Rightarrow> Inl e | Inr qs \<Rightarrow> insert_desc p qs)"

fun sort_by_completed_at :: "json \<Rightarrow> error + json" where
  "sort_by_completed_at (JArr xs) =
     (case sort_keys xs of
        Inl e \<Rightarrow> Inl e
      | Inr ps \<Rightarrow> (case sort_desc ps of Inl e \<Rightarrow> Inl e | Inr qs \<Rightarrow> Inr (JArr (map snd qs))))"
| "sort_by_completed_at _ = Inl AttributeError"

text \<open>
  The report printed for each new record. Printing itself is not modelled, but the
  slice \<^verbatim>\<open>donation['donor_comment'][:100]\<close>, taken when the comment is truthy,
  raises on a number, a boolean or a dict (TypeError; KeyError for a dict from
  Python 3.12), after the file has been written.
\<close>

fun report_new :: "json list \<Rightarrow> error option" where
  "report_new [] = None"
| "report_new (r # rs) =
     (let c = (case r of JObj kvs \<Rightarrow> dict_get kvs ''donor_comment'' JNull | _ \<Rightarrow> JNull) in
      if truthy c
      then (case c of JStr s \<Rightarrow> report_new rs | JArr xs \<Rightarrow> report_new rs | _ \<Rightarrow> Some TypeError)
      else report_new rs)"

text \<open>
  A call's outcome: the known ids and the donations file afterwards, and what the call
  returned or raised.
\<close>

type_synonym ingest_result = "json set \<times> json_file \<times> (error + bool)"

text \<open>\<^verbatim>\<open>DonationMonitor.save_new_donations\<close> (collecter.py, lines 78-136).\<close>

definition save_new_donations :: "json set \<Rightarrow> json_file \<Rightarrow> json \<Rightarrow> ingest_result" where
  "save_new_donations known dfile donations_data =
     (if \<not> truthy donations_data then (known, dfile, Inr False)
      else
        (case read_or_empty dfile of
           Inl e \<Rightarrow> (known, dfile, Inl e)
         | Inr existing_donations \<Rightarrow>
             (case py_iter donations_data of
                Inl e \<Rightarrow> (known, dfile, Inl e)
              | Inr ds \<Rightarrow>
                  (case ingest_loop (\<lambda>n. []) known existing_donations [] ds of
                     Inl (e, known') \<Rightarrow> (known', dfile, Inl e)
                   | Inr (known', existing', new_donations) \<Rightarrow>
                       if new_donations \<noteq> [] then
                         (case sort_by_completed_at existing' of
                            Inl e \<Rightarrow> (known', dfile, Inl e)
                          | Inr saved \<Rightarrow>
                              (case report_new new_donations of
                                 Some e \<Rightarrow> (known', Content saved, Inl e)
                               | None \<Rightarrow> (known', Content saved, Inr True)))
                       else (known', dfile, Inr False)))))"

text \<open>
  \<^verbatim>\<open>GitHubDonationCollector.update_donations\<close> (github_collector.py, lines 86-142).
  \<open>now n\<close> is the reading of \<^verbatim>\<open>datetime.utcnow().isoformat() + 'Z'\<close> taken for
  the record made when \<open>n\<close> records are already new.
\<close>

definition update_donations :: "(nat \<Rightarrow> string) \<Rightarrow> json set \<Rightarrow> json_file \<Rightarrow> json \<Rightarrow> ingest_result" where
  "update_donations now known dfile donations_data =
     (if \<not> truthy donations_data then (known, dfile, Inr False)
      else
        (case read_or_empty dfile of
           Inl e \<Rightarrow> (known, dfile, Inl e)
         | Inr existing_donations \<Rightarrow>
             (case py_iter donations_data of
                Inl e \<Rightarrow> (known, dfile, Inl e)
              | Inr ds \<Rightarrow>
                  (case ingest_loop (\<lambda>n. [(''recorded_at'', JStr (now n))])
                          known existing_donations [] ds of
                     Inl (e, known') \<Rightarrow> (known', dfile, Inl e)
                   | Inr (known', existing', new_donations) \<Rightarrow>
                       if new_donations \<noteq> [] \<or> \<not> truthy existing' then
                         (case sort_by_completed_at existing' of
                            Inl e \<Rightarrow> (known', dfile, Inl e)
                          | Inr saved \<Rightarrow>
                              (case report_new new_donations of
                                 Some e \<Rightarrow> (known', Content saved, Inl e)
                               | None \<Rightarrow> (known', Content saved, Inr True)))
                       else (known', dfile, Inr False)))))"

text \<open>
  The spec's \<open>ingest\<close> is either of the two: the monitor's, or the collector's with
  its clock.
\<close>

datatype variant = Monitor | Collector "nat \<Rightarrow> string"

fun ingest :: "variant \<Rightarrow> json set \<Rightarrow> json_file \<Rightarrow> json \<Rightarrow> ingest_result" where
  "ingest Monitor known dfile donations_data = save_new_donations known dfile donations_data"
| "ingest (Collector now) known dfile donations_data =
     update_donations now known dfile donations_data"

text \<open>
  A history of one donations file: calls of ingest on the running instance, each on the
  set and the file the one before left, whether it returned or raised; and restarts,
  where a new process builds its instance and the set is what \<open>load_existing_data\<close>
  reads from the file. A restart that raises ends the history: the file stays as it
  is, so every later start raises as well.
\<close>

datatype step = Ingest variant json | Restart

fun feed :: "step list \<Rightarrow> json set \<times> json_file \<Rightarrow> json set \<times> json_file" where
  "feed [] s = s"
| "feed (Ingest v donations_data # cs) s =
     (case ingest v (fst s) (snd s) donations_data of
        (known', dfile', out) \<Rightarrow> feed cs (known', dfile'))"
| "feed (Restart # cs) s =
     (case load_existing_data (snd s) of
        Inl e \<Rightarrow> s
      | Inr known' \<Rightarrow> feed cs (known', snd s))"

text \<open>A result with every \<^verbatim>\<open>recorded_at\<close> of the stored ledger taken out, to compare
  two runs apart from the clock.\<close>

fun erase_recorded_at :: "json \<Rightarrow> json" where
  "erase_recorded_at (JObj kvs) = JObj (filter (\<lambda>kv. fst kv \<noteq> ''recorded_at'') kvs)"
| "erase_recorded_at j = j"

fun erase_stamps :: "json \<Rightarrow> json" where
  "erase_stamps (JArr xs) = JArr (map erase_recorded_at xs)"
| "erase_stamps j = j"

fun erase_file :: "json_file \<Rightarrow> json_file" where
  "erase_file (Content j) = Content (erase_stamps j)"
| "erase_file f = f"

definition unstamped :: "ingest_result \<Rightarrow> ingest_result" where
  "unstamped res = (case res of (known', dfile', out) \<Rightarrow> (known', erase_file dfile', out))"

section \<open>The total-raised series\<close>

text \<open>\<^verbatim>\<open>float(total_data.get("total_raised", 0))\<close>.\<close>

definition total_amount :: "(string \<Rightarrow> rat option) \<Rightarrow> json \<Rightarrow> error + rat" where
  "total_amount str_float total_data =
     (case py_get total_data ''total_raised'' (JNum 0) of
        Inl e \<Rightarrow> Inl e
      | Inr v \<Rightarrow> py_float str_float v)"

text \<open>
  \<^verbatim>\<open>DonationMonitor.save_total_raised_update\<close> (collecter.py, lines 50-76): the
  file afterwards, or the exception (every one is raised before the write). \<open>ms\<close> is
  the reading \<^verbatim>\<open>int(time.time() * 1000)\<close>.
\<close>

definition save_total_raised_update ::
  "(string \<Rightarrow> rat option) \<Rightarrow> int \<Rightarrow> json_file \<Rightarrow> json \<Rightarrow> error + json_file" where
  "save_total_raised_update str_float ms tfile total_data =
     (case total_amount str_float total_data of
        Inl e \<Rightarrow> Inl e
      | Inr amount \<Rightarrow>
          (let update_data = JObj [(''amount'', JNum amount), (''timestamp'', JNum (of_int ms))] in
           case read_or_empty tfile of
             Inl e \<Rightarrow> Inl e
           | Inr updates \<Rightarrow>
               (case py_append updates update_data of
                  Inl e \<Rightarrow> Inl e
                | Inr updates' \<Rightarrow> Inr (Content updates'))))"

text \<open>\<^verbatim>\<open>if len(updates) > 100: updates = updates[-100:]\<close>, on the list just appended to.\<close>

fun keep_last_100 :: "json \<Rightarrow> json" where
  "keep_last_100 (JArr xs) = JArr (if length xs > 100 then drop (length xs - 100) xs else xs)"
| "keep_last_100 j = j"

text \<open>
  \<^verbatim>\<open>GitHubDonationCollector.update_total_raised\<close> (github_collector.py, lines
  49-84): the file afterwards and the value returned, or the exception. \<open>stamp\<close> is the
  reading \<^verbatim>\<open>datetime.utcnow().isoformat() + 'Z'\<close>.
\<close>

definition update_total_raised ::
  "(string \<Rightarrow> rat option) \<Rightarrow> int \<Rightarrow> string \<Rightarrow> json_file \<Rightarrow> json \<Rightarrow> error + (json_file \<times> bool)" where
  "update_total_raised str_float ms stamp tfile total_data =
     (if \<not> truthy total_data then Inr (tfile, False)
      else
        (case total_amount str_float total_data of
           Inl e \<Rightarrow> Inl e
         | Inr amount \<Rightarrow>
             (let update_data =
                    JObj [(''amount'', JNum amount), (''timestamp'', JNum (of_int ms)),
                          (''last_updated'', JStr stamp)] in
              case read_or_empty tfile of
                Inl e \<Rightarrow> Inl e
              | Inr updates \<Rightarrow>
                  (case py_append updates update_data of
                     Inl e \<Rightarrow> Inl e
                   | Inr updates' \<Rightarrow> Inr (Content (keep_last_100 updates'), True)))))"

section \<open>Fetching\<close>

text \<open>
  What a \<^verbatim>\<open>requests.get\<close> meets: a timeout, a network error, or a response with a
  status and a JSON body (a body that is not JSON is not modelled).
  \<^verbatim>\<open>raise_for_status\<close> raises for a status from 400 to 599. Both wrappers catch
  \<^verbatim>\<open>requests.RequestException\<close> and return \<^verbatim>\<open>None\<close>.
\<close>

datatype response = Timeout | ConnectionFailed | Status nat json

fun get_total_raised :: "response \<Rightarrow> json" where
  "get_total_raised Timeout = JNull"
| "get_total_raised ConnectionFailed = JNull"
| "get_total_raised (Status code body) = (if 400 \<le> code \<and> code < 600 then JNull else body)"

fun get_donations :: "response \<Rightarrow> json" where
  "get_donations Timeout = JNull"
| "get_donations ConnectionFailed = JNull"
| "get_donations (Status code body) = (if 400 \<le> code \<and> code < 600 then JNull else body)"

section \<open>One cycle\<close>

text \<open>
  The state a cycle works on: the instance's set of known ids and the two files; for
  the monitor also \<^verbatim>\<open>self.last_total\<close>, \<^verbatim>\<open>self.last_check_time\<close> and the loop's
  local \<^verbatim>\<open>consecutive_errors\<close>.
\<close>

record collector_state =
  known_donation_ids :: "json set"
  donations_file :: json_file
  total_raised_file :: json_file

record monitor_state = collector_state +
  last_total :: "rat option"
  last_check_time :: "rat option"
  consecutive_errors :: nat

text \<open>
  What a cycle reads from outside: the two responses and the clock. \<open>utcnow n\<close> is the
  reading stamped on the \<open>n\<close>-th new record, \<open>utcnow_total\<close> the one stamped on the
  sample, \<open>time_ms\<close> the sample's \<^verbatim>\<open>int(time.time() * 1000)\<close>; \<open>start_time\<close>,
  \<open>check_time\<close> and \<open>end_time\<close> are the readings of \<^verbatim>\<open>time.time()\<close> at lines 154,
  166 and 190 of collecter.py.
\<close>

record env =
  donations_response :: response
  total_response :: response
  utcnow :: "nat \<Rightarrow> string"
  utcnow_total :: string
  time_ms :: int
  start_time :: rat
  check_time :: rat
  end_time :: rat

text \<open>
  \<^verbatim>\<open>GitHubDonationCollector.run_update\<close> (github_collector.py, lines 144-185): the
  state afterwards and the value returned. The \<^verbatim>\<open>except Exception\<close> turns every
  exception into \<^verbatim>\<open>False\<close>.
\<close>

definition run_update ::
  "(string \<Rightarrow> rat option) \<Rightarrow> env \<Rightarrow> collector_state \<Rightarrow> collector_state \<times> bool" where
  "run_update str_float ev st =
     (let donations_data = get_donations (donations_response ev) in
      if \<not> truthy donations_data then (st, False)
      else
        (case update_donations (utcnow ev) (known_donation_ids st) (donations_file st)
                donations_data of
           (known', dfile', Inl e) \<Rightarrow>
             (st\<lparr>known_donation_ids := known', donations_file := dfile'\<rparr>, False)
         | (known', dfile', Inr changed) \<Rightarrow>
             (let st1 = st\<lparr>known_donation_ids := known', donations_file := dfile'\<rparr>;
                  total_data = get_total_raised (total_response ev) in
              if \<not> truthy total_data then (st1, False)
              else
                (case update_total_raised str_float (time_ms ev) (utcnow_total ev)
                        (total_raised_file st1) total_data of
                   Inl e \<Rightarrow> (st1, False)
                 | Inr (tfile', b) \<Rightarrow> (st1\<lparr>total_raised_file := tfile'\<rparr>, True)))))"

text \<open>
  \<^verbatim>\<open>DonationMonitor.monitor\<close> (collecter.py, lines 138-202), the body of the
  \<^verbatim>\<open>while True\<close> in three parts. Lines 158-170: fetch and ingest; the result is
  \<^verbatim>\<open>new_donations_found\<close>, or the exception raised.
\<close>

definition monitor_donations :: "env \<Rightarrow> monitor_state \<Rightarrow> monitor_state \<times> (error + bool)" where
  "monitor_donations ev st =
     (let donations_data = get_donations (donations_response ev) in
      if truthy donations_data then
        (case save_new_donations (known_donation_ids st) (donations_file st) donations_data of
           (known', dfile', Inl e) \<Rightarrow>
             (st\<lparr>known_donation_ids := known', donations_file := dfile'\<rparr>, Inl e)
         | (known', dfile', Inr new_donations_found) \<Rightarrow>
             (st\<lparr>known_donation_ids := known', donations_file := dfile',
                 consecutive_errors := 0,
                 last_check_time :=
                   (if (case last_check_time st of None \<Rightarrow> True
                        | Some t \<Rightarrow> check_time ev - t \<ge> 10) \<and> \<not> new_donations_found
                    then Some (check_time ev) else last_check_time st)\<rparr>,
              Inr new_donations_found))
      else (st, Inr False))"

text \<open>Lines 172-178: the total is fetched, and saved if there are new donations.\<close>

definition monitor_total ::
  "(string \<Rightarrow> rat option) \<Rightarrow> env \<Rightarrow> monitor_state \<Rightarrow> bool \<Rightarrow> monitor_state \<times> error option" where
  "monitor_total str_float ev st new_donations_found =
     (let total_data = get_total_raised (total_response ev) in
      if truthy total_data \<and> new_donations_found then
        (case total_amount str_float total_data of
           Inl e \<Rightarrow> (st, Some e)
         | Inr current_total \<Rightarrow>
             if (case last_total st of None \<Rightarrow> True | Some t \<Rightarrow> current_total \<noteq> t) then
               (case save_total_raised_update str_float (time_ms ev) (total_raised_file st)
                       total_data of
                  Inl e \<Rightarrow> (st, Some e)
                | Inr tfile' \<Rightarrow>
                    (st\<lparr>total_raised_file := tfile', last_total := Some current_total\<rparr>, None))
             else (st, None))
      else (st, None))"

text \<open>
  What the loop does besides changing state: the error report with its number, the
  five-second pause, the sleep to the next interval, or the warning that the check
  took longer than the interval.
\<close>

datatype event = CheckError nat | Cooldown rat | IntervalSleep rat | IntervalWarning

definition max_consecutive_errors :: nat where
  "max_consecutive_errors = 5"

text \<open>Lines 180-187: the handler of \<^verbatim>\<open>except Exception\<close>.\<close>

definition monitor_except :: "monitor_state \<Rightarrow> monitor_state \<times> event list" where
  "monitor_except st =
     (let n = consecutive_errors st + 1 in
      if n \<ge> max_consecutive_errors
      then (st\<lparr>consecutive_errors := 0\<rparr>, [CheckError n, Cooldown 5])
      else (st\<lparr>consecutive_errors := n\<rparr>, [CheckError n]))"

text \<open>Lines 156-178: the body of the \<^verbatim>\<open>try\<close>, with the exception it raised, if any.\<close>

definition monitor_try ::
  "(string \<Rightarrow> rat option) \<Rightarrow> env \<Rightarrow> monitor_state \<Rightarrow> monitor_state \<times> error option" where
  "monitor_try str_float ev st =
     (case monitor_donations ev st of
        (st1, Inl e) \<Rightarrow> (st1, Some e)
      | (st1, Inr new_donations_found) \<Rightarrow> monitor_total str_float ev st1 new_donations_found)"

text \<open>Lines 189-196: the sleep to the next interval.\<close>

definition interval_sleep :: "rat \<Rightarrow> env \<Rightarrow> event" where
  "interval_sleep interval ev =
     (let elapsed = end_time ev - start_time ev;
          sleep_time = max 0 (interval - elapsed)
      in if sleep_time > 0 then IntervalSleep sleep_time else IntervalWarning)"

definition monitor_cycle ::
  "(string \<Rightarrow> rat option) \<Rightarrow> rat \<Rightarrow> env \<Rightarrow> monitor_state \<Rightarrow> monitor_state \<times> event list" where
  "monitor_cycle str_float interval ev st =
     (case monitor_try str_float ev st of
        (st2, None) \<Rightarrow> (st2, [interval_sleep interval ev])
      | (st2, Some e) \<Rightarrow>
          (case monitor_except st2 of
             (st3, evs) \<Rightarrow> (st3, evs @ [interval_sleep interval ev])))"



section \<open>Notions used to state the properties\<close>

text \<open>
  Records that a call may add: their id keys differ from one another and from every
  known key, and each id is truthy and hashable.
\<close>

definition fresh_records :: "json set \<Rightarrow> json list \<Rightarrow> bool" where
  "fresh_records known added \<longleftrightarrow>
     distinct (map id_key added) \<and>
     (\<forall>r\<in>set added. id_key r \<notin> known \<and> truthy (id_of r) \<and> hashable (id_of r))"

text \<open>
  What every call does to the set and the file, returning or raising: the set gains the
  keys of some fresh records, and the file is either left alone or rewritten with a
  rearrangement of its ledger and those records.
\<close>

definition ingest_shape :: "json set \<Rightarrow> json_file \<Rightarrow> ingest_result \<Rightarrow> bool" where
  "ingest_shape known f res \<longleftrightarrow>
     (\<exists>added. fst res = known \<union> id_key ` set added \<and> fresh_records known added \<and>
        (fst (snd res) = f \<or>
         (\<exists>ys. fst (snd res) = Content (JArr ys) \<and> mset ys = mset (ledger_of f) + mset added)))"

text \<open>The invariant of the set and the file: the stored ids are distinct, all known, and
  each of them truthy and hashable.\<close>

definition ledger_inv :: "json set \<times> json_file \<Rightarrow> bool" where
  "ledger_inv s \<longleftrightarrow>
     distinct (map id_key (ledger_of (snd s))) \<and> id_key ` set (ledger_of (snd s)) \<subseteq> fst s \<and>
     (\<forall>r\<in>set (ledger_of (snd s)). truthy (id_of r) \<and> hashable (id_of r))"

text \<open>What a variant adds to the record it makes when \<open>n\<close> records are already new.\<close>

fun stamp_of :: "variant \<Rightarrow> nat \<Rightarrow> (string \<times> json) list" where
  "stamp_of Monitor n = []"
| "stamp_of (Collector now) n = [(''recorded_at'', JStr (now n))]"

text \<open>
  A payload that carries an id the set already holds; and a payload the loop passes
  over, because its id is falsy or already held.
\<close>

fun carries_known_id :: "json set \<Rightarrow> json \<Rightarrow> bool" where
  "carries_known_id known (JObj kvs) =
     (hashable (dict_get kvs ''id'' JNull) \<and> py_key (dict_get kvs ''id'' JNull) \<in> known)"
| "carries_known_id known _ = False"

fun settled :: "json set \<Rightarrow> json \<Rightarrow> bool" where
  "settled known (JObj kvs) =
     (\<not> truthy (dict_get kvs ''id'' JNull) \<or>
      (hashable (dict_get kvs ''id'' JNull) \<and> py_key (dict_get kvs ''id'' JNull) \<in> known))"
| "settled known _ = False"

text \<open>
  The collector's loop and call with the stamps taken out of what they build: the same
  code with no \<^verbatim>\<open>recorded_at\<close>, on the ledger without its stamps. Used only to
  compare two runs of \<open>update_donations\<close>.
\<close>

definition erase_loop ::
  "(error \<times> json set) + (json set \<times> json \<times> json list) \<Rightarrow>
   (error \<times> json set) + (json set \<times> json \<times> json list)" where
  "erase_loop res =
     (case res of
        Inl p \<Rightarrow> Inl p
      | Inr (k, e, n) \<Rightarrow> Inr (k, erase_stamps e, map erase_recorded_at n))"

definition erase_pairs :: "(json \<times> json) list \<Rightarrow> (json \<times> json) list" where
  "erase_pairs ps = map (\<lambda>p. (fst p, erase_recorded_at (snd p))) ps"

definition unstamped_update :: "json set \<Rightarrow> json_file \<Rightarrow> json \<Rightarrow> ingest_result" where
  "unstamped_update known dfile donations_data =
     (if \<not> truthy donations_data then (known, erase_file dfile, Inr False)
      else
        (case read_or_empty dfile of
           Inl e \<Rightarrow> (known, erase_file dfile, Inl e)
         | Inr existing_donations \<Rightarrow>
             (case py_iter donations_data of
                Inl e \<Rightarrow> (known, erase_file dfile, Inl e)
              | Inr ds \<Rightarrow>
                  (case ingest_loop (\<lambda>n. []) known (erase_stamps existing_donations) [] ds of
                     Inl (e, known') \<Rightarrow> (known', erase_file dfile, Inl e)
                   | Inr (known', existing', new_donations) \<Rightarrow>
                       if new_donations \<noteq> [] \<or> \<not> truthy existing' then
                         (case sort_by_completed_at existing' of
                            Inl e \<Rightarrow> (known', erase_file dfile, Inl e)
                          | Inr saved \<Rightarrow>
                              (case report_new new_donations of
                                 Some e \<Rightarrow> (known', Content saved, Inl e)
                               | None \<Rightarrow> (known', Content saved, Inr True)))
                       else (known', erase_file dfile, Inr False)))))"

text \<open>
  The key the sort gives a stored record, \<^verbatim>\<open>x.get('completed_at', '')\<close>: the value
  under \<^verbatim>\<open>completed_at\<close>, the empty string for a record that lacks the key.
\<close>

fun completed_at_key :: "json \<Rightarrow> json" where
  "completed_at_key (JObj kvs) = dict_get kvs ''completed_at'' (JStr [])"
| "completed_at_key _ = JNull"

text \<open>
  A key \<open>x\<close> may stand right before a key \<open>y\<close> in a list sorted in descending order:
  Python found \<open>y < x\<close>, or found that \<open>x < y\<close> does not hold. Strings and numbers
  are the keys ordered in a line; among them \<open>plain_ge x y\<close> says that \<open>x < y\<close>
  does not hold.
\<close>

definition key_ge :: "json \<Rightarrow> json \<Rightarrow> bool" where
  "key_ge x y \<longleftrightarrow> py_lt y x = Inr True \<or> py_lt x y = Inr False"

fun is_str :: "json \<Rightarrow> bool" where
  "is_str (JStr s) = True"
| "is_str _ = False"

definition plain_key :: "json \<Rightarrow> bool" where
  "plain_key k \<longleftrightarrow> is_str k \<or> is_number k"

definition plain_ge :: "json \<Rightarrow> json \<Rightarrow> bool" where
  "plain_ge x y \<longleftrightarrow> plain_key x \<and> plain_key y \<and> py_lt x y = Inr False"

text \<open>
  Input on which a call has nothing to raise: a stored record is a dict whose sort key
  is a string (its \<^verbatim>\<open>completed_at\<close>, or the default when it has none); a payload
  is a dict with a hashable id, a string under \<^verbatim>\<open>completed_at\<close>, and a comment
  that the report can slice (a string or a list) or that is falsy.
\<close>

fun timed_record :: "json \<Rightarrow> bool" where
  "timed_record (JObj kvs) = is_str (dict_get kvs ''completed_at'' (JStr []))"
| "timed_record _ = False"

fun printable_comment :: "json \<Rightarrow> bool" where
  "printable_comment (JStr s) = True"
| "printable_comment (JArr xs) = True"
| "printable_comment c = (\<not> truthy c)"

fun well_formed_payload :: "json \<Rightarrow> bool" where
  "well_formed_payload (JObj kvs) =
     (hashable (dict_get kvs ''id'' JNull) \<and>
      is_str (dict_get kvs ''completed_at'' JNull) \<and>
      printable_comment (dict_get kvs ''donor_comment'' JNull))"
| "well_formed_payload _ = False"

text \<open>The series a total-raised file holds: the list it stores, if any.\<close>

fun series_of :: "json_file \<Rightarrow> json list" where
  "series_of (Content (JArr xs)) = xs"
| "series_of _ = []"

subsection \<open>Concrete inputs\<close>

text \<open>Payloads as the upstream sends them, and the records the monitor makes of them.\<close>

definition payload_a :: json where
  "payload_a = JObj [(''id'', JStr ''a''), (''completed_at'', JStr ''2024-01-01''), (''amount'', JNum 5)]"

definition payload_a_again :: json where
  "payload_a_again = JObj [(''id'', JStr ''a''), (''completed_at'', JStr ''2024-01-05''), (''amount'', JNum 9)]"

definition payload_b :: json where
  "payload_b = JObj [(''id'', JStr ''b''), (''completed_at'', JStr ''2024-01-02'')]"

definition payload_no_time :: json where
  "payload_no_time = JObj [(''id'', JStr ''c''), (''amount'', JNum 7)]"

definition record_a :: json where
  "record_a = JObj [(''id'', JStr ''a''), (''amount'', JNum 5), (''completed_at'', JStr ''2024-01-01''),
                    (''donor_name'', JNull), (''donor_comment'', JNull), (''currency'', JNull)]"

text \<open>The record the monitor makes of payload b, and a stored record that has no
  \<^verbatim>\<open>completed_at\<close> at all.\<close>

definition record_b :: json where
  "record_b = JObj [(''id'', JStr ''b''), (''amount'', JNull), (''completed_at'', JStr ''2024-01-02''),
                    (''donor_name'', JNull), (''donor_comment'', JNull), (''currency'', JNull)]"

definition record_untimed :: json where
  "record_untimed = JObj [(''id'', JStr ''z''), (''amount'', JNum 1)]"

text \<open>A total of 10, the sample the monitor makes of it, and a parser that is never
  asked (no total here is a string).\<close>

definition total_10 :: json where
  "total_10 = JObj [(''total_raised'', JNum 10)]"

definition sample_10 :: json where
  "sample_10 = JObj [(''amount'', JNum 10), (''timestamp'', JNum 1700000000000)]"

definition no_str_float :: "string \<Rightarrow> rat option" where
  "no_str_float s = None"

text \<open>
  Four cycles' worth of outside world: one payload and a total; both requests failing;
  a payload that is not a dict; and the same with the clock five seconds further at
  the end of the cycle, as it is after the pause.
\<close>

definition quiet_env :: env where
  "quiet_env = \<lparr>donations_response = Status 200 (JArr [payload_a]),
                 total_response = Status 200 total_10,
                 utcnow = (\<lambda>n. ''2024-01-03T00:00:00Z''),
                 utcnow_total = ''2024-01-03T00:00:01Z'',
                 time_ms = 1700000000000,
                 start_time = 0, check_time = 1/20, end_time = 1/10\<rparr>"

definition outage_env :: env where
  "outage_env = \<lparr>donations_response = Timeout,
                  total_response = ConnectionFailed,
                  utcnow = (\<lambda>n. ''2024-01-03T00:00:00Z''),
                  utcnow_total = ''2024-01-03T00:00:01Z'',
                  time_ms = 1700000000000,
                  start_time = 0, check_time = 1/20, end_time = 1/10\<rparr>"

definition broken_env :: env where
  "broken_env = \<lparr>donations_response = Status 200 (JArr [JNum 1]),
                  total_response = Status 200 total_10,
                  utcnow = (\<lambda>n. ''2024-01-03T00:00:00Z''),
                  utcnow_total = ''2024-01-03T00:00:01Z'',
                  time_ms = 1700000000000,
                  start_time = 0, check_time = 1/20, end_time = 1/10\<rparr>"

definition broken_late_env :: env where
  "broken_late_env = \<lparr>donations_response = Status 200 (JArr [JNum 1]),
                       total_response = Status 200 total_10,
                       utcnow = (\<lambda>n. ''2024-01-03T00:00:00Z''),
                       utcnow_total = ''2024-01-03T00:00:01Z'',
                       time_ms = 1700000000000,
                       start_time = 0, check_time = 1/20, end_time = 51/10\<rparr>"


text \<open>A collector that has seen donation a; a monitor just started, one after its
  first cycle on \<open>quiet_env\<close>, and one with four errors counted.\<close>

definition seen_a :: collector_state where
  "seen_a = \<lparr>known_donation_ids = {JStr ''a''},
              donations_file = Content (JArr [record_a]),
              total_raised_file = Absent\<rparr>"

definition fresh_monitor :: monitor_state where
  "fresh_monitor = \<lparr>known_donation_ids = {}, donations_file = Absent, total_raised_file = Absent,
                     last_total = None, last_check_time = None, consecutive_errors = 0\<rparr>"

definition monitor_after_a :: monitor_state where
  "monitor_after_a = \<lparr>known_donation_ids = {JStr ''a''},
                       donations_file = Content (JArr [record_a]),
                       total_raised_file = Content (JArr [sample_10]),
                       last_total = Some 10, last_check_time = None, consecutive_errors = 0\<rparr>"

definition troubled_monitor :: monitor_state where
  "troubled_monitor = \<lparr>known_donation_ids = {}, donations_file = Absent,
                        total_raised_file = Absent,
                        last_total = None, last_check_time = None, consecutive_errors = 4\<rparr>"

text \<open>The equations that evaluate the calls and the cycles on concrete input.\<close>

lemmas eval_defs =
  save_new_donations_def update_donations_def py_in_def donation_record_def dict_get_def
  Let_def payload_a_def payload_a_again_def payload_b_def payload_no_time_def
  record_a_def

lemmas eval_total_defs =
  total_amount_def save_total_raised_update_def update_total_raised_def
  total_10_def sample_10_def

lemmas eval_cycle_defs =
  monitor_cycle_def monitor_try_def monitor_donations_def monitor_total_def
  monitor_except_def max_consecutive_errors_def interval_sleep_def run_update_def
  quiet_env_def outage_env_def broken_env_def broken_late_env_def
  seen_a_def fresh_monitor_def monitor_after_a_def troubled_monitor_def

section \<open>Lemmas on the ingestion loop and the sort\<close>

lemma id_key_donation_record:
  "id_key (donation_record kvs extra) = py_key (dict_get kvs ''id'' JNull)"
  by (simp add: id_key_def donation_record_def dict_get_def)

lemma id_of_donation_record:
  "id_of (donation_record kvs extra) = dict_get kvs ''id'' JNull"
  by (simp add: donation_record_def dict_get_def)

lemma ingest_entry_Inr:
  assumes "ingest_entry stamp known ex new d = Inr (k', e', n')"
  shows "(k' = known \<and> e' = ex \<and> n' = new) \<or>
         (\<exists>kvs xs. d = JObj kvs \<and> ex = JArr xs \<and>
            truthy (dict_get kvs ''id'' JNull) \<and> hashable (dict_get kvs ''id'' JNull) \<and>
            py_key (dict_get kvs ''id'' JNull) \<notin> known \<and>
            k' = insert (py_key (dict_get kvs ''id'' JNull)) known \<and>
            e' = JArr (xs @ [donation_record kvs (stamp (length new))]) \<and>
            n' = new @ [donation_record kvs (stamp (length new))])"
proof (cases d)
  case (JObj kvs)
  show ?thesis
  proof (cases ex)
    case (JArr xs)
    with JObj assms show ?thesis
      by (auto simp: Let_def py_in_def split: if_splits sum.splits bool.splits)
  qed (use JObj assms in \<open>auto simp: Let_def py_in_def split: if_splits sum.splits bool.splits\<close>)
qed (use assms in auto)

lemma ingest_loop_Inr:
  assumes "ingest_loop stamp known ex new ds = Inr (k', e', n')"
  shows "\<exists>added. n' = new @ added \<and> k' = known \<union> id_key ` set added \<and>
           distinct (map id_key added) \<and>
           (\<forall>r\<in>set added. id_key r \<notin> known \<and> truthy (id_of r) \<and> hashable (id_of r)) \<and>
           (added = [] \<longrightarrow> e' = ex) \<and>
           (added \<noteq> [] \<longrightarrow> (\<exists>xs. ex = JArr xs \<and> e' = JArr (xs @ added)))"
  using assms
proof (induction ds arbitrary: known ex new)
  case Nil
  then show ?case by auto
next
  case (Cons d ds)
  from Cons.prems obtain k1 e1 n1 where
    step: "ingest_entry stamp known ex new d = Inr (k1, e1, n1)" and
    rest: "ingest_loop stamp k1 e1 n1 ds = Inr (k', e', n')"
    by (auto split: sum.splits)
  from Cons.IH[OF rest] obtain added where
    A: "n' = n1 @ added" "k' = k1 \<union> id_key ` set added" "distinct (map id_key added)"
       "\<forall>r\<in>set added. id_key r \<notin> k1 \<and> truthy (id_of r) \<and> hashable (id_of r)"
       "added = [] \<longrightarrow> e' = e1" "added \<noteq> [] \<longrightarrow> (\<exists>xs. e1 = JArr xs \<and> e' = JArr (xs @ added))"
    by blast
  from ingest_entry_Inr[OF step] show ?case
  proof
    assume "k1 = known \<and> e1 = ex \<and> n1 = new"
    with A show ?thesis by auto
  next
    assume "\<exists>kvs xs. d = JObj kvs \<and> ex = JArr xs \<and>
            truthy (dict_get kvs ''id'' JNull) \<and> hashable (dict_get kvs ''id'' JNull) \<and>
            py_key (dict_get kvs ''id'' JNull) \<notin> known \<and>
            k1 = insert (py_key (dict_get kvs ''id'' JNull)) known \<and>
            e1 = JArr (xs @ [donation_record kvs (stamp (length new))]) \<and>
            n1 = new @ [donation_record kvs (stamp (length new))]"
    then obtain kvs xs where
      B: "d = JObj kvs" "ex = JArr xs" "truthy (dict_get kvs ''id'' JNull)"
         "hashable (dict_get kvs ''id'' JNull)" "py_key (dict_get kvs ''id'' JNull) \<notin> known"
         "k1 = insert (py_key (dict_get kvs ''id'' JNull)) known"
         "e1 = JArr (xs @ [donation_record kvs (stamp (length new))])"
         "n1 = new @ [donation_record kvs (stamp (length new))]"
      by blast
    let ?r = "donation_record kvs (stamp (length new))"
    have "n' = new @ (?r # added)" using A B by simp
    moreover have "k' = known \<union> id_key ` set (?r # added)"
      using A B by (auto simp: id_key_donation_record)
    moreover have "distinct (map id_key (?r # added))"
      using A B by (auto simp: id_key_donation_record)
    moreover have "\<forall>r\<in>set (?r # added). id_key r \<notin> known \<and> truthy (id_of r) \<and> hashable (id_of r)"
      using A B by (auto simp: id_key_donation_record id_of_donation_record)
    moreover have "\<exists>ys. ex = JArr ys \<and> e' = JArr (ys @ (?r # added))"
      using A B by auto
    ultimately show ?thesis by blast
  qed
qed

lemma ingest_loop_Inl:
  assumes "ingest_loop stamp known ex new ds = Inl (e, k')"
  shows "\<exists>added. k' = known \<union> id_key ` set added \<and> distinct (map id_key added) \<and>
           (\<forall>r\<in>set added. id_key r \<notin> known \<and> truthy (id_of r) \<and> hashable (id_of r))"
  using assms
proof (induction ds arbitrary: known ex new)
  case Nil
  then show ?case by simp
next
  case (Cons d ds)
  show ?case
  proof (cases "ingest_entry stamp known ex new d")
    case (Inl a)
    with Cons.prems have "k' = known" by simp
    then show ?thesis by (intro exI[of _ "[]"]) simp
  next
    case (Inr t)
    obtain k1 e1 n1 where t: "t = (k1, e1, n1)" by (cases t) auto
    with Inr Cons.prems have rest: "ingest_loop stamp k1 e1 n1 ds = Inl (e, k')" by simp
    from Cons.IH[OF rest] obtain added where
      A: "k' = k1 \<union> id_key ` set added" "distinct (map id_key added)"
         "\<forall>r\<in>set added. id_key r \<notin> k1 \<and> truthy (id_of r) \<and> hashable (id_of r)"
      by blast
    from ingest_entry_Inr[OF Inr[unfolded t]] show ?thesis
    proof
      assume "k1 = known \<and> e1 = ex \<and> n1 = new"
      with A show ?thesis by auto
    next
      assume "\<exists>kvs xs. d = JObj kvs \<and> ex = JArr xs \<and>
            truthy (dict_get kvs ''id'' JNull) \<and> hashable (dict_get kvs ''id'' JNull) \<and>
            py_key (dict_get kvs ''id'' JNull) \<notin> known \<and>
            k1 = insert (py_key (dict_get kvs ''id'' JNull)) known \<and>
            e1 = JArr (xs @ [donation_record kvs (stamp (length new))]) \<and>
            n1 = new @ [donation_record kvs (stamp (length new))]"
      then obtain kvs where
        B: "truthy (dict_get kvs ''id'' JNull)" "hashable (dict_get kvs ''id'' JNull)"
           "py_key (dict_get kvs ''id'' JNull) \<notin> known"
           "k1 = insert (py_key (dict_get kvs ''id'' JNull)) known"
        by blast
      let ?r = "donation_record kvs []"
      have "k' = known \<union> id_key ` set (?r # added)"
        using A B by (auto simp: id_key_donation_record)
      moreover have "distinct (map id_key (?r # added))"
        using A B by (auto simp: id_key_donation_record)
      moreover have "\<forall>r\<in>set (?r # added). id_key r \<notin> known \<and> truthy (id_of r) \<and> hashable (id_of r)"
        using A B by (auto simp: id_key_donation_record id_of_donation_record)
      ultimately show ?thesis by blast
    qed
  qed
qed

lemma sort_keys_snd: "sort_keys xs = Inr ps \<Longrightarrow> map snd ps = xs"
  by (induction xs arbitrary: ps) (auto split: sum.splits)

lemma insert_desc_mset: "insert_desc p qs = Inr rs \<Longrightarrow> mset rs = add_mset p (mset qs)"
  by (induction qs arbitrary: rs) (auto split: sum.splits bool.splits)

lemma sort_desc_mset: "sort_desc ps = Inr qs \<Longrightarrow> mset qs = mset ps"
  by (induction ps arbitrary: qs) (auto split: sum.splits dest: insert_desc_mset)

lemma sort_by_completed_at_Inr:
  assumes "sort_by_completed_at j = Inr j'"
  shows "\<exists>xs ys. j = JArr xs \<and> j' = JArr ys \<and> mset ys = mset xs"
proof (cases j)
  case (JArr xs)
  with assms obtain ps qs where
    P: "sort_keys xs = Inr ps" "sort_desc ps = Inr qs" "j' = JArr (map snd qs)"
    by (auto split: sum.splits)
  have "mset (map snd qs) = mset (map snd ps)"
    using sort_desc_mset[OF P(2)] by (metis mset_map)
  with P JArr show ?thesis by (auto dest: sort_keys_snd)
qed (use assms in auto)

lemma read_or_empty_ledger: "read_or_empty f = Inr (JArr xs) \<Longrightarrow> ledger_of f = xs"
  by (cases f) auto

lemma fresh_records_Nil: "fresh_records known []"
  by (simp add: fresh_records_def)

lemma save_new_donations_shape:
  "ingest_shape known f (save_new_donations known f batch)"
proof (cases "truthy batch")
  case False
  then show ?thesis
    unfolding ingest_shape_def save_new_donations_def
    by (intro exI[of _ "[]"]) (simp add: fresh_records_Nil)
next
  case T: True
  show ?thesis
  proof (cases "read_or_empty f")
    case (Inl e)
    with T show ?thesis
      unfolding ingest_shape_def save_new_donations_def
      by (intro exI[of _ "[]"]) (simp add: fresh_records_Nil)
  next
    case R: (Inr ex)
    show ?thesis
    proof (cases "py_iter batch")
      case (Inl e)
      with T R show ?thesis
        unfolding ingest_shape_def save_new_donations_def
        by (intro exI[of _ "[]"]) (simp add: fresh_records_Nil)
    next
      case I: (Inr ds)
      show ?thesis
      proof (cases "ingest_loop (\<lambda>n. []) known ex [] ds")
        case (Inl p)
        obtain e k' where p: "p = (e, k')" by (cases p) auto
        from ingest_loop_Inl[OF Inl[unfolded p]] obtain added where
          "k' = known \<union> id_key ` set added" "fresh_records known added"
          unfolding fresh_records_def by blast
        with T R I Inl p show ?thesis
          unfolding ingest_shape_def save_new_donations_def by auto
      next
        case L: (Inr t)
        obtain k' e' n' where t: "t = (k', e', n')" by (cases t) auto
        from ingest_loop_Inr[OF L[unfolded t]] obtain added where
          A: "n' = [] @ added" "k' = known \<union> id_key ` set added" "fresh_records known added"
             "added \<noteq> [] \<longrightarrow> (\<exists>xs. ex = JArr xs \<and> e' = JArr (xs @ added))"
          unfolding fresh_records_def by blast
        show ?thesis
        proof (cases "n' \<noteq> [] \<and> (\<exists>sv. sort_by_completed_at e' = Inr sv)")
          case False
          with T R I L t A show ?thesis
            unfolding ingest_shape_def save_new_donations_def
            by (intro exI[of _ added]) (auto split: sum.splits)
        next
          case True
          then obtain sv where S: "sort_by_completed_at e' = Inr sv" and ne: "added \<noteq> []"
            using A by auto
          from A ne obtain xs where X: "ex = JArr xs" "e' = JArr (xs @ added)" by blast
          from sort_by_completed_at_Inr[OF S] X obtain ys where
            Y: "sv = JArr ys" "mset ys = mset (xs @ added)" by auto
          have "ledger_of f = xs" using R X by (simp add: read_or_empty_ledger)
          with T R I L t A S Y ne show ?thesis
            unfolding ingest_shape_def save_new_donations_def
            by (intro exI[of _ added]) (auto split: option.splits)
        qed
      qed
    qed
  qed
qed

lemma update_donations_shape:
  "ingest_shape known f (update_donations now known f batch)"
proof (cases "truthy batch")
  case False
  then show ?thesis
    unfolding ingest_shape_def update_donations_def
    by (intro exI[of _ "[]"]) (simp add: fresh_records_Nil)
next
  case T: True
  show ?thesis
  proof (cases "read_or_empty f")
    case (Inl e)
    with T show ?thesis
      unfolding ingest_shape_def update_donations_def
      by (intro exI[of _ "[]"]) (simp add: fresh_records_Nil)
  next
    case R: (Inr ex)
    show ?thesis
    proof (cases "py_iter batch")
      case (Inl e)
      with T R show ?thesis
        unfolding ingest_shape_def update_donations_def
        by (intro exI[of _ "[]"]) (simp add: fresh_records_Nil)
    next
      case I: (Inr ds)
      let ?stamp = "\<lambda>n. [(''recorded_at'', JStr (now n))]"
      show ?thesis
      proof (cases "ingest_loop ?stamp known ex [] ds")
        case (Inl p)
        obtain e k' where p: "p = (e, k')" by (cases p) auto
        from ingest_loop_Inl[OF Inl[unfolded p]] obtain added where
          "k' = known \<union> id_key ` set added" "fresh_records known added"
          unfolding fresh_records_def by blast
        with T R I Inl p show ?thesis
          unfolding ingest_shape_def update_donations_def by auto
      next
        case L: (Inr t)
        obtain k' e' n' where t: "t = (k', e', n')" by (cases t) auto
        from ingest_loop_Inr[OF L[unfolded t]] obtain added where
          A: "n' = [] @ added" "k' = known \<union> id_key ` set added" "fresh_records known added"
             "added = [] \<longrightarrow> e' = ex"
             "added \<noteq> [] \<longrightarrow> (\<exists>xs. ex = JArr xs \<and> e' = JArr (xs @ added))"
          unfolding fresh_records_def by blast
        show ?thesis
        proof (cases "(n' \<noteq> [] \<or> \<not> truthy e') \<and> (\<exists>sv. sort_by_completed_at e' = Inr sv)")
          case False
          with T R I L t A show ?thesis
            unfolding ingest_shape_def update_donations_def
            by (intro exI[of _ added]) (auto split: sum.splits)
        next
          case True
          then obtain sv where S: "sort_by_completed_at e' = Inr sv" by auto
          from sort_by_completed_at_Inr[OF S] obtain zs ys where
            Z: "e' = JArr zs" "sv = JArr ys" "mset ys = mset zs" by auto
          from A Z obtain xs where X: "ex = JArr xs" "zs = xs @ added"
            by (cases "added = []") auto
          have "ledger_of f = xs" using R X by (simp add: read_or_empty_ledger)
          with T R I L t A S Z X True show ?thesis
            unfolding ingest_shape_def update_donations_def
            by (intro exI[of _ added]) (auto split: option.splits)
        qed
      qed
    qed
  qed
qed

lemma ingest_has_shape: "ingest_shape known f (ingest v known f batch)"
  by (cases v) (simp_all add: save_new_donations_shape update_donations_shape)

lemma shape_keeps_inv:
  assumes "ingest_shape known f res" and "ledger_inv (known, f)"
  shows "ledger_inv (fst res, fst (snd res))"
proof -
  from assms(1) obtain added where
    A: "fst res = known \<union> id_key ` set added" "fresh_records known added"
       "fst (snd res) = f \<or>
         (\<exists>ys. fst (snd res) = Content (JArr ys) \<and> mset ys = mset (ledger_of f) + mset added)"
    unfolding ingest_shape_def by blast
  from A(3) show ?thesis
  proof
    assume "fst (snd res) = f"
    with assms(2) A(1) show ?thesis by (auto simp: ledger_inv_def)
  next
    assume "\<exists>ys. fst (snd res) = Content (JArr ys) \<and> mset ys = mset (ledger_of f) + mset added"
    then obtain ys where
      Y: "fst (snd res) = Content (JArr ys)" "mset ys = mset (ledger_of f @ added)" by auto
    have D: "distinct (map id_key (ledger_of f @ added))"
      using assms(2) A(2) by (auto simp: ledger_inv_def fresh_records_def)
    have "mset (map id_key ys) = mset (map id_key (ledger_of f @ added))"
      using Y(2) by (metis mset_map)
    then have "distinct (map id_key ys)"
      using D by (metis mset_eq_imp_distinct_iff)
    moreover have "set ys = set (ledger_of f) \<union> set added"
      using Y(2) by (metis mset_eq_setD set_append)
    ultimately show ?thesis
      using Y(1) A(1,2) assms(2) by (auto simp: ledger_inv_def fresh_records_def)
  qed
qed

text \<open>A restart reads back at least the key of every stored record with a truthy id.\<close>

lemma collect_ids_keys:
  "collect_ids xs = Inr k \<Longrightarrow> r \<in> set xs \<Longrightarrow> truthy (id_of r) \<Longrightarrow> id_key r \<in> k"
proof (induction xs arbitrary: k)
  case Nil
  then show ?case by simp
next
  case (Cons x xs)
  show ?case
  proof (cases "r = x")
    case True
    from Cons.prems(3) True obtain kvs where x: "x = JObj kvs" by (cases x) auto
    with Cons.prems(3) True have "map_of kvs ''id'' \<noteq> None"
      by (auto simp: dict_get_def split: option.splits)
    then have "''id'' \<in> fst ` set kvs"
      by (simp add: map_of_eq_None_iff)
    with x Cons.prems(1) True show ?thesis
      by (auto simp: id_key_def split: sum.splits if_splits)
  next
    case False
    with Cons.prems(2) have "r \<in> set xs" by simp
    with Cons.IH Cons.prems(1,3) show ?thesis
      by (auto split: sum.splits bool.splits if_splits)
  qed
qed

lemma restart_keeps_inv:
  assumes "ledger_inv (known, f)" and "load_existing_data f = Inr known'"
  shows "ledger_inv (known', f)"
proof (cases "\<exists>xs. f = Content (JArr xs)")
  case True
  then obtain xs where f: "f = Content (JArr xs)" by blast
  with assms(2) have "collect_ids xs = Inr known'" by simp
  from collect_ids_keys[OF this] assms(1) f show ?thesis
    by (auto simp: ledger_inv_def)
next
  case False
  then have "ledger_of f = []" by (induction f rule: ledger_of.induct) auto
  then show ?thesis by (simp add: ledger_inv_def)
qed

lemma feed_keeps_inv: "ledger_inv s \<Longrightarrow> ledger_inv (feed calls s)"
proof (induction calls s rule: feed.induct)
  case (1 s)
  then show ?case by simp
next
  case (2 v donations_data cs s)
  obtain k' f' out where r: "ingest v (fst s) (snd s) donations_data = (k', f', out)"
    by (cases "ingest v (fst s) (snd s) donations_data") auto
  have "ledger_inv (k', f')"
    using shape_keeps_inv[OF ingest_has_shape, of "fst s" "snd s" v donations_data] "2.prems" r
    by simp
  with "2.IH" r show ?case by simp
next
  case (3 cs s)
  show ?case
  proof (cases "load_existing_data (snd s)")
    case (Inl e)
    with "3.prems" show ?thesis by simp
  next
    case (Inr k')
    from restart_keeps_inv[of "fst s" "snd s" k'] "3.prems" Inr
    have "ledger_inv (k', snd s)" by simp
    with "3.IH" Inr show ?thesis by simp
  qed
qed

lemma py_key_truthy:
  "hashable a \<Longrightarrow> hashable b \<Longrightarrow> py_key a = py_key b \<Longrightarrow> truthy a = truthy b"
  by (cases a; cases b) (auto split: if_splits)

text \<open>On hashable values Python's equality is equality of the keys.\<close>

lemma py_eq_iff_key: "hashable a \<Longrightarrow> hashable b \<Longrightarrow> py_eq a b = (py_key a = py_key b)"
  by (cases a; cases b) auto

lemma ingest_entry_new:
  assumes "ingest_entry stamp known ex new d = Inr (k1, e1, n1)"
    and "truthy (id_of d)" and "id_key d \<notin> known"
  shows "\<exists>kvs. d = JObj kvs \<and> k1 = insert (id_key d) known \<and>
           n1 = new @ [donation_record kvs (stamp (length new))]"
proof (cases d)
  case (JObj kvs)
  with assms show ?thesis
    by (cases ex) (auto simp: Let_def py_in_def id_key_def split: if_splits sum.splits bool.splits)
qed (use assms in auto)

lemma ingest_loop_first:
  assumes "ingest_loop stamp known ex new ds = Inr (k', e', n')"
    and "find (\<lambda>d. truthy (id_of d) \<and> id_key d = k) ds = Some d0"
    and "k \<notin> known"
  shows "\<exists>kvs n added. d0 = JObj kvs \<and> n' = new @ added \<and>
           filter (\<lambda>r. id_key r = k) added = [donation_record kvs (stamp n)]"
  using assms
proof (induction ds arbitrary: known ex new)
  case Nil
  then show ?case by simp
next
  case (Cons d ds)
  from Cons.prems(1) obtain k1 e1 n1 where
    step: "ingest_entry stamp known ex new d = Inr (k1, e1, n1)" and
    rest: "ingest_loop stamp k1 e1 n1 ds = Inr (k', e', n')"
    by (auto split: sum.splits)
  show ?case
  proof (cases "truthy (id_of d) \<and> id_key d = k")
    case True
    with Cons.prems(2) have d0: "d0 = d" by simp
    from ingest_entry_new[OF step] True Cons.prems(3) obtain kvs where
      K: "d = JObj kvs" "k1 = insert k known"
         "n1 = new @ [donation_record kvs (stamp (length new))]"
      by auto
    from ingest_loop_Inr[OF rest] obtain added where
      A: "n' = n1 @ added" "\<forall>r\<in>set added. id_key r \<notin> k1" by blast
    have "filter (\<lambda>r. id_key r = k) added = []"
      using A(2) K(2) by (auto simp: filter_empty_conv)
    moreover have "id_key (donation_record kvs (stamp (length new))) = k"
      using True K(1) unfolding id_key_donation_record by (simp add: id_key_def)
    ultimately have
      "filter (\<lambda>r. id_key r = k) (donation_record kvs (stamp (length new)) # added)
         = [donation_record kvs (stamp (length new))]"
      by simp
    moreover have "n' = new @ (donation_record kvs (stamp (length new)) # added)"
      using A(1) K(3) by simp
    ultimately show ?thesis using d0 K(1) by blast
  next
    case False
    with Cons.prems(2) have F: "find (\<lambda>d. truthy (id_of d) \<and> id_key d = k) ds = Some d0"
      by simp
    from ingest_entry_Inr[OF step]
    have S: "(k1 = known \<and> n1 = new) \<or>
             (\<exists>r. id_key r \<noteq> k \<and> k1 = insert (id_key r) known \<and> n1 = new @ [r])"
    proof
      assume "k1 = known \<and> e1 = ex \<and> n1 = new"
      then show ?thesis by simp
    next
      assume "\<exists>kvs xs. d = JObj kvs \<and> ex = JArr xs \<and>
            truthy (dict_get kvs ''id'' JNull) \<and> hashable (dict_get kvs ''id'' JNull) \<and>
            py_key (dict_get kvs ''id'' JNull) \<notin> known \<and>
            k1 = insert (py_key (dict_get kvs ''id'' JNull)) known \<and>
            e1 = JArr (xs @ [donation_record kvs (stamp (length new))]) \<and>
            n1 = new @ [donation_record kvs (stamp (length new))]"
      then obtain kvs where
        B: "d = JObj kvs" "truthy (dict_get kvs ''id'' JNull)"
           "k1 = insert (py_key (dict_get kvs ''id'' JNull)) known"
           "n1 = new @ [donation_record kvs (stamp (length new))]"
        by blast
      from B(1,2) False have "py_key (dict_get kvs ''id'' JNull) \<noteq> k"
        by (auto simp: id_key_def)
      with B show ?thesis
        by (intro disjI2 exI[of _ "donation_record kvs (stamp (length new))"])
           (simp add: id_key_donation_record)
    qed
    then have "k \<notin> k1" using Cons.prems(3) by auto
    from Cons.IH[OF rest F this] obtain kvs n added where
      I: "d0 = JObj kvs" "n' = n1 @ added"
         "filter (\<lambda>r. id_key r = k) added = [donation_record kvs (stamp n)]"
      by blast
    from S show ?thesis
    proof
      assume "k1 = known \<and> n1 = new"
      with I show ?thesis by blast
    next
      assume "\<exists>r. id_key r \<noteq> k \<and> k1 = insert (id_key r) known \<and> n1 = new @ [r]"
      then obtain r where R: "id_key r \<noteq> k" "n1 = new @ [r]" by blast
      have "n' = new @ (r # added)" using I(2) R(2) by simp
      moreover have "filter (\<lambda>r. id_key r = k) (r # added) = [donation_record kvs (stamp n)]"
        using I(3) R(1) by simp
      ultimately show ?thesis using I(1) by blast
    qed
  qed
qed

lemma ingest_returns:
  assumes "ingest v known f batch = (known', f', Inr changed)" and "truthy batch"
  shows "\<exists>ex ds e' n'. read_or_empty f = Inr ex \<and> py_iter batch = Inr ds \<and>
           ingest_loop (stamp_of v) known ex [] ds = Inr (known', e', n') \<and>
           (if n' \<noteq> [] \<or> (v \<noteq> Monitor \<and> \<not> truthy e')
            then changed \<and> (\<exists>sv. sort_by_completed_at e' = Inr sv \<and> f' = Content sv)
            else \<not> changed \<and> f' = f)"
proof (cases v)
  case Monitor
  have [simp]: "stamp_of Monitor = (\<lambda>n. [])" by (rule ext) simp
  from assms Monitor show ?thesis
    by (auto simp: save_new_donations_def split: sum.splits if_splits option.splits prod.splits)
next
  case (Collector now)
  have [simp]: "stamp_of (Collector now) = (\<lambda>n. [(''recorded_at'', JStr (now n))])"
    by (rule ext) simp
  from assms Collector show ?thesis
    by (auto simp: update_donations_def split: sum.splits if_splits option.splits prod.splits)
qed


lemma carries_known_id_settled: "carries_known_id known d \<Longrightarrow> settled known d"
  by (cases d) auto

lemma settled_mono: "settled known d \<Longrightarrow> known \<subseteq> known' \<Longrightarrow> settled known' d"
  by (cases d) auto

lemma ingest_entry_settled:
  "settled known d \<Longrightarrow> ingest_entry stamp known ex new d = Inr (known, ex, new)"
  by (cases d) (auto simp: Let_def py_in_def)

lemma ingest_loop_settled:
  "\<forall>d\<in>set ds. settled known d \<Longrightarrow> ingest_loop stamp known ex new ds = Inr (known, ex, new)"
  by (induction ds) (auto simp: ingest_entry_settled)

lemma ingest_entry_settles:
  assumes "ingest_entry stamp known ex new d = Inr (k1, e1, n1)"
  shows "settled k1 d \<and> known \<subseteq> k1"
proof (cases d)
  case (JObj kvs)
  with assms show ?thesis
    by (cases ex) (auto simp: Let_def py_in_def split: if_splits sum.splits bool.splits)
qed (use assms in auto)

lemma ingest_loop_mono:
  "ingest_loop stamp known ex new ds = Inr (k', e', n') \<Longrightarrow> known \<subseteq> k'"
  by (drule ingest_loop_Inr) auto

lemma ingest_loop_settles:
  assumes "ingest_loop stamp known ex new ds = Inr (k', e', n')"
  shows "\<forall>d\<in>set ds. settled k' d"
  using assms
proof (induction ds arbitrary: known ex new)
  case Nil
  then show ?case by simp
next
  case (Cons d ds)
  from Cons.prems obtain k1 e1 n1 where
    step: "ingest_entry stamp known ex new d = Inr (k1, e1, n1)" and
    rest: "ingest_loop stamp k1 e1 n1 ds = Inr (k', e', n')"
    by (auto split: sum.splits)
  from ingest_entry_settles[OF step] ingest_loop_mono[OF rest]
  have "settled k' d" by (auto intro: settled_mono)
  with Cons.IH[OF rest] show ?case by simp
qed

lemma ingest_settled:
  assumes "py_iter batch = Inr ds" and "\<forall>d\<in>set ds. settled known d"
    and "read_or_empty f = Inr ex" and "v = Monitor \<or> truthy ex"
  shows "ingest v known f batch = (known, f, Inr False)"
proof (cases v)
  case Monitor
  with assms show ?thesis
    by (simp add: save_new_donations_def ingest_loop_settled)
next
  case (Collector now)
  with assms show ?thesis
    by (simp add: update_donations_def ingest_loop_settled)
qed

lemma ingest_falsy_batch: "\<not> truthy batch \<Longrightarrow> ingest v known f batch = (known, f, Inr False)"
  by (cases v) (simp_all add: save_new_donations_def update_donations_def)

lemma ledger_nonempty_truthy:
  "ledger_of f \<noteq> [] \<Longrightarrow> \<exists>ex. read_or_empty f = Inr ex \<and> truthy ex"
  by (induction f rule: ledger_of.induct) auto

lemma ingest_again:
  assumes "ingest v known f batch = (known1, f1, Inr c)"
    and "v2 = Monitor \<or> ledger_of f1 \<noteq> []"
  shows "ingest v2 known1 f1 batch = (known1, f1, Inr False)"
proof (cases "truthy batch")
  case False
  with assms(1) have "known1 = known" "f1 = f" by (simp_all add: ingest_falsy_batch)
  with False show ?thesis by (simp add: ingest_falsy_batch)
next
  case True
  from ingest_returns[OF assms(1) True] obtain ex ds e' n' where
    R: "read_or_empty f = Inr ex" "py_iter batch = Inr ds"
       "ingest_loop (stamp_of v) known ex [] ds = Inr (known1, e', n')"
       "(\<exists>sv. f1 = Content sv) \<or> f1 = f"
    by (auto split: if_splits)
  from ingest_loop_settles[OF R(3)] have S: "\<forall>d\<in>set ds. settled known1 d" .
  from R(1,4) obtain ex1 where E: "read_or_empty f1 = Inr ex1" by auto
  show ?thesis
  proof (cases "v2 = Monitor")
    case True
    from ingest_settled[OF R(2) S E, of v2] True show ?thesis by simp
  next
    case False
    with assms(2) obtain ex2 where "read_or_empty f1 = Inr ex2" "truthy ex2"
      using ledger_nonempty_truthy by blast
    from ingest_settled[OF R(2) S this(1), of v2] this(2) show ?thesis by simp
  qed
qed

lemma erase_donation_record:
  "erase_recorded_at (donation_record kvs [(''recorded_at'', s)]) = donation_record kvs []"
  by (simp add: donation_record_def)

lemma dict_get_erase:
  "k \<noteq> ''recorded_at'' \<Longrightarrow>
   dict_get (filter (\<lambda>kv. fst kv \<noteq> ''recorded_at'') kvs) k d = dict_get kvs k d"
  by (induction kvs) (auto simp: dict_get_def)

lemma py_get_erase:
  "k \<noteq> ''recorded_at'' \<Longrightarrow> py_get (erase_recorded_at x) k d = py_get x k d"
  by (cases x) (simp_all add: dict_get_erase)

lemma truthy_erase_stamps: "truthy (erase_stamps j) = truthy j"
  by (cases j) auto

lemma ingest_entry_erase:
  "ingest_entry (\<lambda>n. []) known (erase_stamps ex) (map erase_recorded_at new) d =
     (case ingest_entry (\<lambda>n. [(''recorded_at'', JStr (now n))]) known ex new d of
        Inl e \<Rightarrow> Inl e
      | Inr (k, e, n) \<Rightarrow> Inr (k, erase_stamps e, map erase_recorded_at n))"
proof (cases d)
  case (JObj kvs)
  then show ?thesis
    by (cases ex) (auto simp: Let_def py_in_def erase_donation_record split: sum.splits bool.splits)
qed simp_all

lemma ingest_loop_erase:
  "ingest_loop (\<lambda>n. []) known (erase_stamps ex) (map erase_recorded_at new) ds =
     erase_loop (ingest_loop (\<lambda>n. [(''recorded_at'', JStr (now n))]) known ex new ds)"
proof (induction ds arbitrary: known ex new)
  case Nil
  then show ?case by (simp add: erase_loop_def)
next
  case (Cons d ds)
  show ?case
  proof (cases "ingest_entry (\<lambda>n. [(''recorded_at'', JStr (now n))]) known ex new d")
    case (Inl e)
    then show ?thesis
      using ingest_entry_erase[of known ex new d now] by (simp add: erase_loop_def)
  next
    case (Inr t)
    obtain k1 e1 n1 where "t = (k1, e1, n1)" by (cases t) auto
    with Inr show ?thesis
      using ingest_entry_erase[of known ex new d now] Cons.IH[of k1 e1 n1] by simp
  qed
qed

lemma sort_keys_erase:
  "sort_keys (map erase_recorded_at xs) =
     (case sort_keys xs of Inl e \<Rightarrow> Inl e | Inr ps \<Rightarrow> Inr (erase_pairs ps))"
  by (induction xs) (auto simp: py_get_erase erase_pairs_def split: sum.splits)

lemma insert_desc_erase:
  "insert_desc (fst p, erase_recorded_at (snd p)) (erase_pairs qs) =
     (case insert_desc p qs of Inl e \<Rightarrow> Inl e | Inr rs \<Rightarrow> Inr (erase_pairs rs))"
  by (induction qs) (auto simp: erase_pairs_def split: sum.splits bool.splits)

lemma sort_desc_erase:
  "sort_desc (erase_pairs ps) =
     (case sort_desc ps of Inl e \<Rightarrow> Inl e | Inr qs \<Rightarrow> Inr (erase_pairs qs))"
proof (induction ps)
  case Nil
  then show ?case by (simp add: erase_pairs_def)
next
  case (Cons p ps)
  have "erase_pairs (p # ps) = (fst p, erase_recorded_at (snd p)) # erase_pairs ps"
    by (simp add: erase_pairs_def)
  with Cons show ?case
    by (auto simp: insert_desc_erase split: sum.splits)
qed

lemma sort_by_completed_at_erase:
  "sort_by_completed_at (erase_stamps j) =
     (case sort_by_completed_at j of Inl e \<Rightarrow> Inl e | Inr sv \<Rightarrow> Inr (erase_stamps sv))"
proof (cases j)
  case (JArr xs)
  have "map snd (erase_pairs qs) = map erase_recorded_at (map snd qs)" for qs
    by (simp add: erase_pairs_def)
  with JArr show ?thesis
    by (simp add: sort_keys_erase sort_desc_erase split: sum.splits)
qed simp_all

lemma report_new_erase: "report_new (map erase_recorded_at rs) = report_new rs"
proof (induction rs)
  case Nil
  then show ?case by simp
next
  case (Cons r rs)
  have "(case erase_recorded_at r of JObj kvs \<Rightarrow> dict_get kvs ''donor_comment'' JNull | _ \<Rightarrow> JNull)
      = (case r of JObj kvs \<Rightarrow> dict_get kvs ''donor_comment'' JNull | _ \<Rightarrow> JNull)"
    by (cases r) (simp_all add: dict_get_erase)
  with Cons show ?case by (simp add: Let_def split: json.splits)
qed

lemma unstamped_update_donations:
  "unstamped (update_donations now known f batch) = unstamped_update known f batch"
proof -
  have L: "ingest_loop (\<lambda>n. []) known (erase_stamps ex) [] ds =
        erase_loop (ingest_loop (\<lambda>n. [(''recorded_at'', JStr (now n))]) known ex [] ds)" for ex ds
    using ingest_loop_erase[of known ex "[]" ds now] by simp
  show ?thesis
    unfolding unstamped_def update_donations_def unstamped_update_def L erase_loop_def
    by (auto simp: sort_by_completed_at_erase report_new_erase truthy_erase_stamps
             split: sum.splits option.splits prod.splits)
qed

text \<open>The order of the stored ledger, and the input on which a call returns.\<close>

lemma str_lt_asym: "str_lt s t \<Longrightarrow> \<not> str_lt t s"
  by (induction s t rule: str_lt.induct) (auto split: if_splits)

lemma str_ge_trans: "\<not> str_lt a b \<Longrightarrow> \<not> str_lt b c \<Longrightarrow> \<not> str_lt a c"
proof (induction a b arbitrary: c rule: str_lt.induct)
  case 1
  then show ?case by simp
next
  case (2 d ds)
  then show ?case by simp
next
  case (3 x xs)
  then show ?case by (cases c) auto
next
  case (4 x xs y ys)
  show ?case
  proof (cases c)
    case Nil
    then show ?thesis by simp
  next
    case (Cons z zs)
    with 4 show ?thesis
      by (auto split: if_splits)
  qed
qed

lemma str_lt_Nil: "\<not> str_lt [] t \<Longrightarrow> t = []"
  by (cases t) auto

lemma key_ge_plain: "key_ge x y \<Longrightarrow> plain_key x = plain_key y"
  by (cases x; cases y) (auto simp: key_ge_def plain_key_def split: if_splits)

lemma key_ge_plain_ge: "key_ge x y \<Longrightarrow> plain_key x \<Longrightarrow> plain_ge x y"
  by (cases x; cases y)
     (auto simp: key_ge_def plain_key_def plain_ge_def split: if_splits dest: str_lt_asym)

lemma plain_ge_trans: "plain_ge x y \<Longrightarrow> plain_ge y z \<Longrightarrow> plain_ge x z"
  by (cases x; cases y; cases z)
     (auto simp: plain_key_def plain_ge_def split: if_splits dest: str_ge_trans)

lemma successively_plain_all:
  assumes "successively key_ge ks" and "k \<in> set ks" and "plain_key k" and "k' \<in> set ks"
  shows "plain_key k'"
proof -
  have "successively (\<lambda>x y. plain_key x = plain_key y) ks"
    using assms(1) by (rule successively_mono) (rule key_ge_plain)
  then have S: "sorted_wrt (\<lambda>x y. plain_key x = plain_key y) ks"
    by (subst (asm) successively_iff_sorted_wrt_strong) auto
  from assms(2,4) obtain i j where I: "i < length ks" "ks ! i = k" "j < length ks" "ks ! j = k'"
    by (auto simp: in_set_conv_nth)
  consider "i < j" | "j < i" | "i = j" by linarith
  then have "plain_key k = plain_key k'"
  proof cases
    case 1
    with S I show ?thesis by (auto simp: sorted_wrt_iff_nth_less)
  next
    case 2
    with S I show ?thesis by (auto simp: sorted_wrt_iff_nth_less)
  next
    case 3
    with I show ?thesis by simp
  qed
  with assms(3) show ?thesis by simp
qed

lemma successively_plain_sorted:
  assumes "successively key_ge ks" and "k \<in> set ks" and "plain_key k"
  shows "sorted_wrt plain_ge ks"
proof -
  have P: "\<And>x. x \<in> set ks \<Longrightarrow> plain_key x"
    using successively_plain_all[OF assms] .
  have "successively plain_ge ks"
    using assms(1) by (rule successively_mono) (simp add: key_ge_plain_ge P)
  then show ?thesis
    by (subst (asm) successively_iff_sorted_wrt_strong) (auto intro: plain_ge_trans)
qed

lemma insert_desc_hd:
  "insert_desc p qs = Inr rs \<Longrightarrow> rs \<noteq> [] \<and> (hd rs = p \<or> (qs \<noteq> [] \<and> hd rs = hd qs))"
  by (cases qs) (auto split: sum.splits bool.splits)

lemma insert_desc_chain:
  "insert_desc p qs = Inr rs \<Longrightarrow> successively key_ge (map fst qs) \<Longrightarrow>
     successively key_ge (map fst rs)"
proof (induction qs arbitrary: rs)
  case Nil
  then show ?case by auto
next
  case (Cons q qs)
  show ?case
  proof (cases "py_lt (fst p) (fst q)")
    case (Inl e)
    with Cons.prems show ?thesis by simp
  next
    case (Inr b)
    show ?thesis
    proof (cases b)
      case True
      with Inr Cons.prems(1) obtain rs' where
        R: "insert_desc p qs = Inr rs'" "rs = q # rs'" by (auto split: sum.splits)
      from Cons.prems(2) have "successively key_ge (map fst qs)"
        by (auto simp: successively_Cons)
      from Cons.IH[OF R(1) this] have C: "successively key_ge (map fst rs')" .
      from insert_desc_hd[OF R(1)] have H: "rs' \<noteq> []" "hd rs' = p \<or> (qs \<noteq> [] \<and> hd rs' = hd qs)"
        by auto
      have "key_ge (fst q) (fst (hd rs'))"
        using H(2)
      proof
        assume "hd rs' = p"
        with Inr True show ?thesis by (simp add: key_ge_def)
      next
        assume "qs \<noteq> [] \<and> hd rs' = hd qs"
        with Cons.prems(2) show ?thesis by (auto simp: successively_Cons hd_map)
      qed
      with C H(1) R(2) show ?thesis by (simp add: successively_Cons hd_map)
    next
      case False
      with Inr Cons.prems(1) have "rs = p # q # qs" by simp
      with Inr False Cons.prems(2) show ?thesis by (simp add: key_ge_def)
    qed
  qed
qed

lemma sort_desc_chain: "sort_desc ps = Inr qs \<Longrightarrow> successively key_ge (map fst qs)"
proof (induction ps arbitrary: qs)
  case Nil
  then show ?case by simp
next
  case (Cons p ps)
  then obtain qs' where Q: "sort_desc ps = Inr qs'" "insert_desc p qs' = Inr qs"
    by (auto split: sum.splits)
  from insert_desc_chain[OF Q(2) Cons.IH[OF Q(1)]] show ?case .
qed

lemma sort_keys_key:
  "sort_keys xs = Inr ps \<Longrightarrow> \<forall>p\<in>set ps. (\<exists>kvs. snd p = JObj kvs) \<and> fst p = completed_at_key (snd p)"
proof (induction xs arbitrary: ps)
  case Nil
  then show ?case by simp
next
  case (Cons x xs)
  then obtain k ps' where
    K: "py_get x ''completed_at'' (JStr []) = Inr k" "sort_keys xs = Inr ps'" "ps = (k, x) # ps'"
    by (auto split: sum.splits)
  from K(1) have "(\<exists>kvs. x = JObj kvs) \<and> k = completed_at_key x" by (cases x) auto
  with Cons.IH[OF K(2)] K(3) show ?case by auto
qed

lemma sort_by_completed_at_sorted:
  assumes "sort_by_completed_at j = Inr (JArr ys)"
  shows "(\<forall>r\<in>set ys. \<exists>kvs. r = JObj kvs) \<and> successively key_ge (map completed_at_key ys)"
proof (cases j)
  case (JArr xs)
  with assms obtain ps qs where
    P: "sort_keys xs = Inr ps" "sort_desc ps = Inr qs" "ys = map snd qs"
    by (auto split: sum.splits)
  from sort_desc_mset[OF P(2)] have "set qs = set ps" by (rule mset_eq_setD)
  with sort_keys_key[OF P(1)]
  have Q: "\<forall>p\<in>set qs. (\<exists>kvs. snd p = JObj kvs) \<and> fst p = completed_at_key (snd p)" by simp
  then have "map fst qs = map completed_at_key (map snd qs)" by simp
  with sort_desc_chain[OF P(2)] Q P(3) show ?thesis by auto
qed (use assms in auto)

lemma ingest_True_saved:
  assumes "ingest v known f batch = (known', f', Inr True)"
  shows "\<exists>e' ys. sort_by_completed_at e' = Inr (JArr ys) \<and> f' = Content (JArr ys)"
proof -
  have T: "truthy batch"
    using assms
    by (cases v) (auto simp: save_new_donations_def update_donations_def split: if_splits)
  from ingest_returns[OF assms T] obtain e' sv where
    S: "sort_by_completed_at e' = Inr sv" "f' = Content sv"
    by (auto split: if_splits)
  from sort_by_completed_at_Inr[OF S(1)] S show ?thesis by auto
qed

lemma chain_sorted_facts:
  assumes C: "successively key_ge (map completed_at_key L)"
  shows "(\<forall>i j. i < j \<and> j < length L \<and>
            (plain_key (completed_at_key (L ! i)) \<or> plain_key (completed_at_key (L ! j)))
            \<longrightarrow> py_lt (completed_at_key (L ! i)) (completed_at_key (L ! j)) = Inr False) \<and>
         (\<forall>i j. i < j \<and> j < length L \<and> completed_at_key (L ! i) = JStr []
            \<longrightarrow> completed_at_key (L ! j) = JStr [])"
proof -
  have A: "py_lt (completed_at_key (L ! i)) (completed_at_key (L ! j)) = Inr False"
    if "i < j" "j < length L" "plain_key (completed_at_key (L ! i)) \<or> plain_key (completed_at_key (L ! j))"
    for i j
  proof -
    from that obtain k where "k \<in> set (map completed_at_key L)" "plain_key k"
      by (metis length_map nth_map nth_mem order.strict_trans)
    from successively_plain_sorted[OF C this]
    have "plain_ge (map completed_at_key L ! i) (map completed_at_key L ! j)"
      using that by (simp add: sorted_wrt_iff_nth_less)
    with that show ?thesis by (simp add: plain_ge_def)
  qed
  have B: "completed_at_key (L ! j) = JStr []"
    if "i < j" "j < length L" "completed_at_key (L ! i) = JStr []" for i j
  proof -
    from that have "py_lt (JStr []) (completed_at_key (L ! j)) = Inr False"
      using A[of i j] by (simp add: plain_key_def)
    then show ?thesis
      by (cases "completed_at_key (L ! j)") (auto split: if_splits dest: str_lt_Nil)
  qed
  from A B show ?thesis by blast
qed


lemma ingest_entry_total:
  assumes "well_formed_payload d"
  shows "\<exists>k' xs' n'. ingest_entry stamp known (JArr xs) new d = Inr (k', JArr xs', n')"
proof (cases d)
  case (JObj kvs)
  with assms show ?thesis
    by (cases "py_key (dict_get kvs ''id'' JNull) \<in> known") (simp_all add: Let_def py_in_def)
qed (use assms in auto)

lemma ingest_loop_total:
  assumes "list_all well_formed_payload ds"
  shows "\<exists>res. ingest_loop stamp known (JArr xs) new ds = Inr res"
  using assms
proof (induction ds arbitrary: known xs new)
  case Nil
  then show ?case by simp
next
  case (Cons d ds)
  from Cons.prems have W: "well_formed_payload d" "list_all well_formed_payload ds" by simp_all
  from ingest_entry_total[OF W(1)] obtain k' xs' n' where
    "ingest_entry stamp known (JArr xs) new d = Inr (k', JArr xs', n')" by blast
  with Cons.IH[OF W(2), of k' xs' n'] show ?case by simp
qed

lemma ingest_loop_new_records:
  assumes "ingest_loop stamp known ex new ds = Inr (k', e', n')"
  shows "\<exists>added. n' = new @ added \<and>
           (\<forall>r\<in>set added. \<exists>kvs n. JObj kvs \<in> set ds \<and> r = donation_record kvs (stamp n))"
  using assms
proof (induction ds arbitrary: known ex new)
  case Nil
  then show ?case by simp
next
  case (Cons d ds)
  from Cons.prems obtain k1 e1 n1 where
    step: "ingest_entry stamp known ex new d = Inr (k1, e1, n1)" and
    rest: "ingest_loop stamp k1 e1 n1 ds = Inr (k', e', n')"
    by (auto split: sum.splits)
  from Cons.IH[OF rest] obtain added where
    A: "n' = n1 @ added"
       "\<forall>r\<in>set added. \<exists>kvs n. JObj kvs \<in> set ds \<and> r = donation_record kvs (stamp n)"
    by blast
  from ingest_entry_Inr[OF step]
  have "n1 = new \<or> (\<exists>kvs. d = JObj kvs \<and> n1 = new @ [donation_record kvs (stamp (length new))])"
    by blast
  then show ?case
  proof
    assume "n1 = new"
    moreover from A(2)
    have "\<forall>r\<in>set added. \<exists>kvs n. JObj kvs \<in> set (d # ds) \<and> r = donation_record kvs (stamp n)"
      by (meson list.set_intros(2))
    ultimately show ?thesis using A(1) by blast
  next
    assume "\<exists>kvs. d = JObj kvs \<and> n1 = new @ [donation_record kvs (stamp (length new))]"
    then obtain kvs where
      B: "d = JObj kvs" "n1 = new @ [donation_record kvs (stamp (length new))]" by blast
    have "n' = new @ (donation_record kvs (stamp (length new)) # added)" using A(1) B(2) by simp
    moreover have "\<exists>kvs n. JObj kvs \<in> set (d # ds) \<and> r = donation_record kvs (stamp n)"
      if "r \<in> set (donation_record kvs (stamp (length new)) # added)" for r
    proof (cases "r = donation_record kvs (stamp (length new))")
      case True
      with B(1) show ?thesis by (intro exI[of _ kvs] exI[of _ "length new"]) simp
    next
      case False
      with that have "r \<in> set added" by simp
      with A(2) show ?thesis by (meson list.set_intros(2))
    qed
    ultimately show ?thesis by blast
  qed
qed

lemma donation_record_well_formed:
  assumes "well_formed_payload (JObj kvs)"
  shows "timed_record (donation_record kvs extra) \<and>
         (\<exists>rs. donation_record kvs extra = JObj rs \<and>
               printable_comment (dict_get rs ''donor_comment'' JNull))"
  using assms by (simp add: donation_record_def dict_get_def)

lemma sort_keys_timed:
  "list_all timed_record zs \<Longrightarrow> \<exists>ps. sort_keys zs = Inr ps \<and> list_all (\<lambda>p. is_str (fst p)) ps"
proof (induction zs)
  case Nil
  then show ?case by simp
next
  case (Cons z zs)
  then obtain ps where P: "sort_keys zs = Inr ps" "list_all (\<lambda>p. is_str (fst p)) ps" by auto
  from Cons.prems have "timed_record z" by simp
  then obtain k where "py_get z ''completed_at'' (JStr []) = Inr k" "is_str k"
    by (cases z) auto
  with P show ?case by simp
qed

lemma insert_desc_str:
  "is_str (fst p) \<Longrightarrow> list_all (\<lambda>p. is_str (fst p)) qs \<Longrightarrow>
     \<exists>rs. insert_desc p qs = Inr rs \<and> list_all (\<lambda>p. is_str (fst p)) rs"
proof (induction qs)
  case Nil
  then show ?case by simp
next
  case (Cons q qs)
  then obtain rs where R: "insert_desc p qs = Inr rs" "list_all (\<lambda>p. is_str (fst p)) rs" by auto
  from Cons.prems obtain s t where "fst p = JStr s" "fst q = JStr t"
    by (cases "fst p"; cases "fst q") auto
  with R Cons.prems show ?case by (cases "str_lt s t") auto
qed

lemma sort_desc_str:
  "list_all (\<lambda>p. is_str (fst p)) ps \<Longrightarrow>
     \<exists>qs. sort_desc ps = Inr qs \<and> list_all (\<lambda>p. is_str (fst p)) qs"
proof (induction ps)
  case Nil
  then show ?case by simp
next
  case (Cons p ps)
  then obtain qs where Q: "sort_desc ps = Inr qs" "list_all (\<lambda>p. is_str (fst p)) qs" by auto
  from Cons.prems have "is_str (fst p)" by simp
  from insert_desc_str[OF this Q(2)] Q(1) show ?case by auto
qed

lemma sort_by_completed_at_total:
  assumes "list_all timed_record zs"
  shows "\<exists>ys. sort_by_completed_at (JArr zs) = Inr (JArr ys)"
proof -
  from sort_keys_timed[OF assms] obtain ps where
    P: "sort_keys zs = Inr ps" "list_all (\<lambda>p. is_str (fst p)) ps" by blast
  from sort_desc_str[OF P(2)] obtain qs where "sort_desc ps = Inr qs" by blast
  with P(1) show ?thesis by simp
qed

lemma report_new_printable:
  "\<forall>r\<in>set rs. \<exists>kvs. r = JObj kvs \<and> printable_comment (dict_get kvs ''donor_comment'' JNull)
     \<Longrightarrow> report_new rs = None"
proof (induction rs)
  case Nil
  then show ?case by simp
next
  case (Cons r rs)
  then obtain kvs where
    K: "r = JObj kvs" "printable_comment (dict_get kvs ''donor_comment'' JNull)" by auto
  from Cons have "report_new rs = None" by simp
  with K show ?case
    by (cases "dict_get kvs ''donor_comment'' JNull") (auto simp: Let_def)
qed

lemma ingest_well_formed:
  assumes R: "read_or_empty f = Inr (JArr xs)"
    and T: "list_all timed_record xs"
    and W: "list_all well_formed_payload ds"
    and F: "find (\<lambda>d. truthy (id_of d) \<and> id_key d = k) ds = Some d0"
    and K: "k \<notin> known"
  shows "\<exists>known' f'. ingest v known f (JArr ds) = (known', f', Inr True)"
proof -
  from F have ne: "ds \<noteq> []" by auto
  from ingest_loop_total[OF W, of "stamp_of v" known xs "[]"] obtain res where
    "ingest_loop (stamp_of v) known (JArr xs) [] ds = Inr res" by blast
  then obtain k' e' n' where
    L: "ingest_loop (stamp_of v) known (JArr xs) [] ds = Inr (k', e', n')"
    by (cases res) auto
  from ingest_loop_first[OF L F K] have N: "n' \<noteq> []" by auto
  with ingest_loop_Inr[OF L] have E: "e' = JArr (xs @ n')" by auto
  from ingest_loop_new_records[OF L]
  have A: "\<forall>r\<in>set n'. \<exists>kvs n. JObj kvs \<in> set ds \<and> r = donation_record kvs (stamp_of v n)"
    by auto
  have wf: "well_formed_payload (JObj kvs)" if "JObj kvs \<in> set ds" for kvs
    using W that by (auto simp: list_all_iff)
  have D: "timed_record r \<and>
           (\<exists>rs. r = JObj rs \<and> printable_comment (dict_get rs ''donor_comment'' JNull))"
    if "r \<in> set n'" for r
  proof -
    from A that obtain kvs n where
      "JObj kvs \<in> set ds" "r = donation_record kvs (stamp_of v n)" by blast
    with donation_record_well_formed[OF wf, of kvs "stamp_of v n"] show ?thesis by simp
  qed
  then have "\<forall>r\<in>set n'. timed_record r" by blast
  with T have "list_all timed_record (xs @ n')" by (auto simp: list_all_iff)
  from sort_by_completed_at_total[OF this] E obtain ys where
    S: "sort_by_completed_at e' = Inr (JArr ys)" by auto
  have "\<forall>r\<in>set n'. \<exists>rs. r = JObj rs \<and> printable_comment (dict_get rs ''donor_comment'' JNull)"
    using D by blast
  from report_new_printable[OF this] have P: "report_new n' = None" .
  show ?thesis
  proof (cases v)
    case Monitor
    have [simp]: "stamp_of Monitor = (\<lambda>n. [])" by (rule ext) simp
    from Monitor R L N S P ne show ?thesis by (simp add: save_new_donations_def)
  next
    case (Collector now)
    have [simp]: "stamp_of (Collector now) = (\<lambda>n. [(''recorded_at'', JStr (now n))])"
      by (rule ext) simp
    from Collector R L N S P ne show ?thesis by (simp add: update_donations_def)
  qed
qed


section \<open>Lemmas on the total-raised series and the cycle\<close>

lemma update_total_raised_True:
  assumes "update_total_raised sf ms stamp tfile total_data = Inr (tfile', True)"
  shows "\<exists>old amount. read_or_empty tfile = Inr (JArr old) \<and>
           total_amount sf total_data = Inr amount \<and>
           series_of tfile' =
             drop (length old + 1 - 100)
               (old @ [JObj [(''amount'', JNum amount), (''timestamp'', JNum (of_int ms)),
                             (''last_updated'', JStr stamp)]])"
proof -
  from assms obtain amount updates where
    A: "total_amount sf total_data = Inr amount" "read_or_empty tfile = Inr updates"
    by (auto simp: update_total_raised_def Let_def split: if_splits sum.splits)
  show ?thesis
  proof (cases updates)
    case (JArr old)
    with assms A show ?thesis
      by (auto simp: update_total_raised_def Let_def split: if_splits)
  qed (use assms A in \<open>auto simp: update_total_raised_def Let_def split: if_splits\<close>)
qed

lemma save_total_raised_update_Inr:
  assumes "save_total_raised_update sf ms tfile total_data = Inr tfile'"
  shows "\<exists>old amount. read_or_empty tfile = Inr (JArr old) \<and>
           total_amount sf total_data = Inr amount \<and>
           tfile' = Content (JArr (old @ [JObj [(''amount'', JNum amount),
                                               (''timestamp'', JNum (of_int ms))]]))"
proof -
  from assms obtain amount updates where
    A: "total_amount sf total_data = Inr amount" "read_or_empty tfile = Inr updates"
    by (auto simp: save_total_raised_update_def Let_def split: sum.splits)
  show ?thesis
  proof (cases updates)
    case (JArr old)
    with assms A show ?thesis
      by (auto simp: save_total_raised_update_def Let_def)
  qed (use assms A in \<open>auto simp: save_total_raised_update_def Let_def\<close>)
qed

lemma monitor_donations_frame:
  assumes "monitor_donations ev st = (st1, r)"
  shows "total_raised_file st1 = total_raised_file st \<and> last_total st1 = last_total st \<and>
         (r = Inr True \<longrightarrow>
            snd (snd (save_new_donations (known_donation_ids st) (donations_file st)
                        (get_donations (donations_response ev)))) = Inr True)"
  using assms
  by (auto simp: monitor_donations_def Let_def split: if_splits prod.splits sum.splits)

lemma monitor_total_guard:
  assumes "monitor_total sf ev st found = (st2, exc)"
  shows "(total_raised_file st2 = total_raised_file st \<and> last_total st2 = last_total st) \<or>
         (found \<and> exc = None \<and>
          (\<exists>cur. total_amount sf (get_total_raised (total_response ev)) = Inr cur \<and>
                 last_total st \<noteq> Some cur \<and> last_total st2 = Some cur \<and>
                 save_total_raised_update sf (time_ms ev) (total_raised_file st)
                     (get_total_raised (total_response ev)) = Inr (total_raised_file st2)))"
  using assms
  by (auto simp: monitor_total_def Let_def split: if_splits sum.splits option.splits)

lemma monitor_except_frame:
  "monitor_except st = (st', evs) \<Longrightarrow>
     total_raised_file st' = total_raised_file st \<and> last_total st' = last_total st"
  by (auto simp: monitor_except_def Let_def split: if_splits)

lemma monitor_cycle_frame:
  assumes "monitor_cycle sf interval ev st = (st', out)"
  shows "\<exists>st2 exc. monitor_try sf ev st = (st2, exc) \<and>
           total_raised_file st' = total_raised_file st2 \<and> last_total st' = last_total st2"
proof -
  obtain st2 exc where T: "monitor_try sf ev st = (st2, exc)" by (cases "monitor_try sf ev st") auto
  show ?thesis
  proof (cases exc)
    case None
    with T assms show ?thesis by (simp add: monitor_cycle_def)
  next
    case (Some e)
    obtain st3 evs where E: "monitor_except st2 = (st3, evs)" by (cases "monitor_except st2") auto
    with T Some assms have "st' = st3" by (simp add: monitor_cycle_def)
    with monitor_except_frame[OF E] T show ?thesis by simp
  qed
qed







section \<open>The claims\<close>

text \<open>
  Claim C1. For every cycle in which ingestion found no new donations the snapshotter
  appends no sample, whatever the fresh total; a sample is appended only if ingestion
  changed the ledger and the last known total is unset or differs from the fresh one.
  This is the monitor's cycle (collecter.py): whenever a cycle leaves the total-raised
  file other than it found it, \<open>save_new_donations\<close> returned \<^verbatim>\<open>True\<close> in that
  cycle, the fresh total differs from \<open>last_total\<close> (or that was unset), the file is
  the old one with the sample appended, and \<open>last_total\<close> is the fresh total. The
  single-shot \<open>run_update\<close> has no such test, as the counterexample after the theorem
  shows.
\<close>

theorem snapshot_only_after_new_donations:
  assumes "monitor_cycle sf interval ev st = (st', out)"
    and "total_raised_file st' \<noteq> total_raised_file st"
  shows "snd (snd (save_new_donations (known_donation_ids st) (donations_file st)
                     (get_donations (donations_response ev)))) = Inr True \<and>
         (\<exists>cur. total_amount sf (get_total_raised (total_response ev)) = Inr cur \<and>
                (last_total st = None \<or> last_total st \<noteq> Some cur) \<and>
                last_total st' = Some cur \<and>
                save_total_raised_update sf (time_ms ev) (total_raised_file st)
                    (get_total_raised (total_response ev)) = Inr (total_raised_file st'))"
proof -
  from monitor_cycle_frame[OF assms(1)] obtain st2 exc where
    T: "monitor_try sf ev st = (st2, exc)" "total_raised_file st' = total_raised_file st2"
       "last_total st' = last_total st2"
    by blast
  obtain st1 r where D: "monitor_donations ev st = (st1, r)"
    by (cases "monitor_donations ev st") auto
  note F = monitor_donations_frame[OF D]
  show ?thesis
  proof (cases r)
    case (Inl e)
    with D T(1) have "st2 = st1" by (simp add: monitor_try_def)
    with F T assms(2) show ?thesis by simp
  next
    case (Inr found)
    with D T(1) have M: "monitor_total sf ev st1 found = (st2, exc)" by (simp add: monitor_try_def)
    from monitor_total_guard[OF M] F T assms(2) Inr show ?thesis by auto
  qed
qed

text \<open>
  A first cycle that finds the new donation \<open>a\<close> and a first total of 10 saves the sample.
\<close>

theorem snapshot_only_after_new_donations_witness:
  "monitor_cycle no_str_float 1 quiet_env fresh_monitor = (monitor_after_a, [IntervalSleep (9/10)]) \<and>
   total_raised_file monitor_after_a \<noteq> total_raised_file fresh_monitor \<and>
   snd (snd (save_new_donations (known_donation_ids fresh_monitor) (donations_file fresh_monitor)
               (get_donations (donations_response quiet_env)))) = Inr True \<and>
   last_total fresh_monitor = None \<and> last_total monitor_after_a = Some 10"
proof -
  have c: "monitor_cycle no_str_float 1 quiet_env fresh_monitor
             = (monitor_after_a, [IntervalSleep (9/10)])"
    by (simp add: eval_cycle_defs eval_total_defs eval_defs)
  have d: "total_raised_file monitor_after_a \<noteq> total_raised_file fresh_monitor"
    by (simp add: monitor_after_a_def fresh_monitor_def)
  from snapshot_only_after_new_donations [OF c d] show ?thesis
    using c d by (auto simp: monitor_after_a_def fresh_monitor_def)
qed

text \<open>
  Against the claim as it is written: in \<open>run_update\<close> (github_collector.py), with
  donation \<open>a\<close> already known and stored, \<open>update_donations\<close> returns
  \<^verbatim>\<open>False\<close> and a sample is appended all the same.
\<close>

theorem run_update_appends_without_new_donations:
  "snd (snd (update_donations (utcnow quiet_env) (known_donation_ids seen_a)
               (donations_file seen_a) (get_donations (donations_response quiet_env))))
     = Inr False \<and>
   total_raised_file seen_a = Absent \<and>
   total_raised_file (fst (run_update no_str_float quiet_env seen_a))
     = Content (JArr [JObj [(''amount'', JNum 10), (''timestamp'', JNum 1700000000000),
                            (''last_updated'', JStr ''2024-01-03T00:00:01Z'')]])"
  by (simp add: run_update_def update_total_raised_def total_amount_def quiet_env_def seen_a_def
        total_10_def eval_defs)

text \<open>
  Claim C2. After every call that appends a sample and saves the series, the saved
  series has at most 100 entries, and it is the oldest that are dropped. This is
  \<open>update_total_raised\<close> (github_collector.py): when it returns \<^verbatim>\<open>True\<close> the saved
  series is the old one with the sample at its end, cut from the front to its last 100.
  \<open>save_total_raised_update\<close> (collecter.py) has no cap: the saved series is the old
  one with the sample at its end, whatever its length.
\<close>

theorem retention_cap:
  "(update_total_raised sf ms stamp tfile total_data = Inr (tfile1, True) \<longrightarrow>
      length (series_of tfile1) \<le> 100 \<and>
      (\<exists>old amount. read_or_empty tfile = Inr (JArr old) \<and>
         total_amount sf total_data = Inr amount \<and>
         series_of tfile1 =
           drop (length old + 1 - 100)
             (old @ [JObj [(''amount'', JNum amount), (''timestamp'', JNum (of_int ms)),
                           (''last_updated'', JStr stamp)]]))) \<and>
   (save_total_raised_update sf ms tfile total_data = Inr tfile2 \<longrightarrow>
      (\<exists>old amount. read_or_empty tfile = Inr (JArr old) \<and>
         total_amount sf total_data = Inr amount \<and>
         series_of tfile2 =
           old @ [JObj [(''amount'', JNum amount), (''timestamp'', JNum (of_int ms))]]))"
proof (intro conjI impI)
  assume A: "update_total_raised sf ms stamp tfile total_data = Inr (tfile1, True)"
  from update_total_raised_True[OF A] obtain old amount where
    B: "read_or_empty tfile = Inr (JArr old)" "total_amount sf total_data = Inr amount"
       "series_of tfile1 =
          drop (length old + 1 - 100)
            (old @ [JObj [(''amount'', JNum amount), (''timestamp'', JNum (of_int ms)),
                          (''last_updated'', JStr stamp)]])"
    by blast
  from B(3) show "length (series_of tfile1) \<le> 100" by simp
  from B show "\<exists>old amount. read_or_empty tfile = Inr (JArr old) \<and>
         total_amount sf total_data = Inr amount \<and>
         series_of tfile1 =
           drop (length old + 1 - 100)
             (old @ [JObj [(''amount'', JNum amount), (''timestamp'', JNum (of_int ms)),
                           (''last_updated'', JStr stamp)]])" by blast
next
  assume "save_total_raised_update sf ms tfile total_data = Inr tfile2"
  from save_total_raised_update_Inr[OF this]
  show "\<exists>old amount. read_or_empty tfile = Inr (JArr old) \<and>
         total_amount sf total_data = Inr amount \<and>
         series_of tfile2 =
           old @ [JObj [(''amount'', JNum amount), (''timestamp'', JNum (of_int ms))]]"
    by auto
qed

text \<open>
  A series of 100 stays at 100 under the collector, the oldest sample gone; under the
  monitor a series of one becomes a series of two.
\<close>

theorem retention_cap_witness:
  "update_total_raised no_str_float 1700000000000 ''2024-01-03T00:00:01Z''
      (Content (JArr (replicate 100 sample_10))) total_10
     = Inr (Content (JArr (replicate 99 sample_10 @
              [JObj [(''amount'', JNum 10), (''timestamp'', JNum 1700000000000),
                     (''last_updated'', JStr ''2024-01-03T00:00:01Z'')]])), True) \<and>
   length (series_of (Content (JArr (replicate 99 sample_10 @
              [JObj [(''amount'', JNum 10), (''timestamp'', JNum 1700000000000),
                     (''last_updated'', JStr ''2024-01-03T00:00:01Z'')]])))) \<le> 100 \<and>
   save_total_raised_update no_str_float 1700000000000 (Content (JArr [sample_10])) total_10
     = Inr (Content (JArr [sample_10, sample_10])) \<and>
   series_of (Content (JArr [sample_10, sample_10])) = [sample_10] @ [sample_10]"
proof -
  have u: "update_total_raised no_str_float 1700000000000 ''2024-01-03T00:00:01Z''
      (Content (JArr (replicate 100 sample_10))) total_10
     = Inr (Content (JArr (replicate 99 sample_10 @
              [JObj [(''amount'', JNum 10), (''timestamp'', JNum 1700000000000),
                     (''last_updated'', JStr ''2024-01-03T00:00:01Z'')]])), True)"
    by (simp add: eval_total_defs dict_get_def)
  have s: "save_total_raised_update no_str_float 1700000000000 (Content (JArr [sample_10])) total_10
     = Inr (Content (JArr [sample_10, sample_10]))"
    by (simp add: eval_total_defs dict_get_def)
  from retention_cap [of no_str_float 1700000000000 "''2024-01-03T00:00:01Z''"
      "Content (JArr (replicate 100 sample_10))" total_10 _ "Content (JArr [])"] u
  have "length (series_of (Content (JArr (replicate 99 sample_10 @
              [JObj [(''amount'', JNum 10), (''timestamp'', JNum 1700000000000),
                     (''last_updated'', JStr ''2024-01-03T00:00:01Z'')]])))) \<le> 100"
    by blast
  with u s show ?thesis by simp
qed

text \<open>
  Against the claim as it is written: the monitor's save takes a series of 100 to 101.
\<close>

theorem retention_cap_counterexample:
  "save_total_raised_update no_str_float 1700000000000
      (Content (JArr (replicate 100 sample_10))) total_10
     = Inr (Content (JArr (replicate 100 sample_10 @ [sample_10]))) \<and>
   length (replicate 100 sample_10 @ [sample_10]) = 101"
  by (simp add: save_total_raised_update_def total_amount_def total_10_def sample_10_def
        dict_get_def)

text \<open>
  Claim C3. For every sequence of raw batches fed through repeated ingest calls
  starting from an empty ledger, the resulting ledger never contains two records with
  the same id. Here every call may be the monitor's or the collector's, may return or
  raise, the process may restart between calls and load the set from the file again,
  and the set of known ids may start with anything in it. No two records of the
  resulting ledger \<open>L\<close> have ids that Python's \<^verbatim>\<open>==\<close> takes for equal; their keys
  in the set are distinct.
\<close>

theorem no_duplicate_ids:
  assumes "ledger_of f0 = []" and "L = ledger_of (snd (feed calls (known0, f0)))"
  shows "distinct (map id_key L) \<and>
         (\<forall>i j. i < j \<and> j < length L \<longrightarrow> \<not> py_eq (id_of (L ! i)) (id_of (L ! j)))"
proof -
  have "ledger_inv (known0, f0)" using assms(1) by (simp add: ledger_inv_def)
  from feed_keeps_inv[OF this, of calls] assms(2)
  have D: "distinct (map id_key L)" and H: "\<forall>r\<in>set L. hashable (id_of r)"
    by (simp_all add: ledger_inv_def)
  have "\<not> py_eq (id_of (L ! i)) (id_of (L ! j))" if "i < j" "j < length L" for i j
  proof -
    from that have "L ! i \<in> set L" "L ! j \<in> set L" by simp_all
    with H have "py_eq (id_of (L ! i)) (id_of (L ! j)) = (id_key (L ! i) = id_key (L ! j))"
      by (simp add: py_eq_iff_key id_key_def)
    moreover have "map id_key L ! i \<noteq> map id_key L ! j"
      using nth_eq_iff_index_eq [OF D, of i j] that by simp
    moreover have "map id_key L ! i = id_key (L ! i)" "map id_key L ! j = id_key (L ! j)"
      using that by simp_all
    ultimately show ?thesis by simp
  qed
  with D show ?thesis by blast
qed

text \<open>
  Donation \<open>a\<close> twice in the monitor's batch, then \<open>b\<close> and \<open>a\<close> to a collector
  just started: the ledger holds \<open>b\<close> and \<open>a\<close>, once each.
\<close>

theorem no_duplicate_ids_witness:
  "ledger_of Absent = [] \<and>
   ledger_of (snd (feed
     [Ingest Monitor (JArr [payload_a, payload_a]), Restart,
      Ingest (Collector (\<lambda>n. ''2024-01-03T00:00:00Z'')) (JArr [payload_b, payload_a])]
     ({}, Absent)))
   = [JObj [(''id'', JStr ''b''), (''amount'', JNull), (''completed_at'', JStr ''2024-01-02''),
            (''donor_name'', JNull), (''donor_comment'', JNull), (''currency'', JNull),
            (''recorded_at'', JStr ''2024-01-03T00:00:00Z'')],
      record_a] \<and>
   \<not> py_eq (JStr ''b'') (JStr ''a'')"
proof -
  have e: "ledger_of (snd (feed
     [Ingest Monitor (JArr [payload_a, payload_a]), Restart,
      Ingest (Collector (\<lambda>n. ''2024-01-03T00:00:00Z'')) (JArr [payload_b, payload_a])]
     ({}, Absent)))
   = [JObj [(''id'', JStr ''b''), (''amount'', JNull), (''completed_at'', JStr ''2024-01-02''),
            (''donor_name'', JNull), (''donor_comment'', JNull), (''currency'', JNull),
            (''recorded_at'', JStr ''2024-01-03T00:00:00Z'')],
      record_a]"
    by (simp add: eval_defs)
  have h: "ledger_of Absent = []" by simp
  from no_duplicate_ids [OF h e [symmetric]] show ?thesis
    using e by simp
qed

text \<open>
  Claim C4. For every ledger, known-id set and batch whose entries all carry ids already
  in the set, ingest is a complete no-op (it returns \<^verbatim>\<open>False\<close>, leaves the ledger
  untouched and does not save), and so a second ingest of the same batch returns
  \<^verbatim>\<open>False\<close> and leaves the ledger unchanged. This holds for the monitor's
  \<open>save_new_donations\<close> whenever the file can be read, and for the collector's
  \<open>update_donations\<close> whenever the ledger it reads is not empty; and a call that
  returned, run again on what it left and on the same batch, returns \<^verbatim>\<open>False\<close>
  and changes nothing, for the monitor always and for the collector when the stored
  ledger is not empty. When the ledger it reads is the empty list the collector saves
  it and returns \<^verbatim>\<open>True\<close> with nothing new
  (\<^verbatim>\<open>if new_donations or not existing_donations\<close>).
\<close>

theorem known_batch_is_noop:
  "(read_or_empty f = Inr existing \<and> (v = Monitor \<or> truthy existing) \<and>
      (\<forall>d\<in>set ds. carries_known_id known d)
     \<longrightarrow> ingest v known f (JArr ds) = (known, f, Inr False)) \<and>
   (ingest v known f batch = (known1, f1, Inr c) \<and> (v2 = Monitor \<or> ledger_of f1 \<noteq> [])
     \<longrightarrow> ingest v2 known1 f1 batch = (known1, f1, Inr False)) \<and>
   (read_or_empty f = Inr (JArr []) \<and> ds \<noteq> [] \<and> (\<forall>d\<in>set ds. carries_known_id known d)
     \<longrightarrow> update_donations now known f (JArr ds) = (known, Content (JArr []), Inr True))"
proof (intro conjI impI)
  assume A: "read_or_empty f = Inr existing \<and> (v = Monitor \<or> truthy existing) \<and>
      (\<forall>d\<in>set ds. carries_known_id known d)"
  then have "\<forall>d\<in>set ds. settled known d" by (auto intro: carries_known_id_settled)
  with A show "ingest v known f (JArr ds) = (known, f, Inr False)"
    by (intro ingest_settled[where ds = ds and ex = existing]) auto
next
  assume "ingest v known f batch = (known1, f1, Inr c) \<and> (v2 = Monitor \<or> ledger_of f1 \<noteq> [])"
  then show "ingest v2 known1 f1 batch = (known1, f1, Inr False)"
    by (auto intro: ingest_again)
next
  assume A: "read_or_empty f = Inr (JArr []) \<and> ds \<noteq> [] \<and>
      (\<forall>d\<in>set ds. carries_known_id known d)"
  then have "\<forall>d\<in>set ds. settled known d" by (auto intro: carries_known_id_settled)
  with A show "update_donations now known f (JArr ds) = (known, Content (JArr []), Inr True)"
    by (simp add: update_donations_def ingest_loop_settled)
qed

text \<open>
  Donation \<open>a\<close> again, to a collector that stores it; the monitor's first and second
  ingest of \<open>a\<close>; and \<open>a\<close> again to a collector that knows it and finds a file that
  is not JSON.
\<close>

theorem known_batch_is_noop_witness:
  "read_or_empty (Content (JArr [record_a])) = Inr (JArr [record_a]) \<and>
   truthy (JArr [record_a]) \<and> list_all (carries_known_id {JStr ''a''}) [payload_a] \<and>
   ingest (Collector (\<lambda>n. ''2024-01-03T00:00:00Z'')) {JStr ''a''} (Content (JArr [record_a]))
       (JArr [payload_a])
     = ({JStr ''a''}, Content (JArr [record_a]), Inr False) \<and>
   ingest Monitor {} Absent (JArr [payload_a]) = ({JStr ''a''}, Content (JArr [record_a]), Inr True) \<and>
   ingest Monitor {JStr ''a''} (Content (JArr [record_a])) (JArr [payload_a])
     = ({JStr ''a''}, Content (JArr [record_a]), Inr False) \<and>
   read_or_empty Malformed = Inr (JArr []) \<and> [payload_a] \<noteq> [] \<and>
   update_donations (\<lambda>n. ''2024-01-03T00:00:00Z'') {JStr ''a''} Malformed (JArr [payload_a])
     = ({JStr ''a''}, Content (JArr []), Inr True)"
proof -
  have h: "read_or_empty (Content (JArr [record_a])) = Inr (JArr [record_a]) \<and>
           (Collector (\<lambda>n. ''2024-01-03T00:00:00Z'') = Monitor \<or> truthy (JArr [record_a])) \<and>
           (\<forall>d\<in>set [payload_a]. carries_known_id {JStr ''a''} d)"
    by (simp add: payload_a_def dict_get_def)
  have e: "ingest Monitor {} Absent (JArr [payload_a])
             = ({JStr ''a''}, Content (JArr [record_a]), Inr True)"
    by (simp add: eval_defs)
  have g: "read_or_empty Malformed = Inr (JArr []) \<and> [payload_a] \<noteq> [] \<and>
           (\<forall>d\<in>set [payload_a]. carries_known_id {JStr ''a''} d)"
    by (simp add: payload_a_def dict_get_def)
  note t = known_batch_is_noop [of "Content (JArr [record_a])" "JArr [record_a]"
      "Collector (\<lambda>n. ''2024-01-03T00:00:00Z'')" "[payload_a]" "{JStr ''a''}"]
  note t2 = known_batch_is_noop [of Absent _ Monitor _ "{}" "JArr [payload_a]"
      "{JStr ''a''}" "Content (JArr [record_a])" True Monitor]
  note t3 = known_batch_is_noop [of Malformed _ Monitor "[payload_a]" "{JStr ''a''}" _ _ _ _ _
      "\<lambda>n. ''2024-01-03T00:00:00Z''"]
  from t3 g have 3: "update_donations (\<lambda>n. ''2024-01-03T00:00:00Z'') {JStr ''a''} Malformed
       (JArr [payload_a]) = ({JStr ''a''}, Content (JArr []), Inr True)"
    by blast
  from t h have 1: "ingest (Collector (\<lambda>n. ''2024-01-03T00:00:00Z'')) {JStr ''a''}
       (Content (JArr [record_a])) (JArr [payload_a])
     = ({JStr ''a''}, Content (JArr [record_a]), Inr False)"
    by blast
  from t2 e have 2: "ingest Monitor {JStr ''a''} (Content (JArr [record_a])) (JArr [payload_a])
     = ({JStr ''a''}, Content (JArr [record_a]), Inr False)"
    by blast
  from 1 2 3 e h g show ?thesis by simp
qed

text \<open>
  Against the claim as it is written: the collector knows \<open>a\<close> but has no file;
  the batch holds only \<open>a\<close>; the call writes an empty ledger and returns
  \<^verbatim>\<open>True\<close>.
\<close>

theorem known_batch_rewrites_empty_ledger:
  "list_all (carries_known_id {JStr ''a''}) [payload_a] \<and>
   read_or_empty Absent = Inr (JArr []) \<and>
   ingest (Collector (\<lambda>n. ''2024-01-03T00:00:00Z'')) {JStr ''a''} Absent (JArr [payload_a])
     = ({JStr ''a''}, Content (JArr []), Inr True)"
  by (simp add: eval_defs)

text \<open>
  Claim C5. Two runs of ingest on the same ledger, known ids and batch give the same
  result, with no dependence on the wall clock in the merge. The monitor's
  \<open>save_new_donations\<close> reads no clock at all: it is a function of the three. The
  collector's \<open>update_donations\<close> stamps every new record with \<^verbatim>\<open>recorded_at\<close>
  from the clock, and nothing else of its result depends on the clock: two runs under
  any two clocks give the same known ids, the same outcome (returned value or
  exception) and, apart from the \<^verbatim>\<open>recorded_at\<close> fields, the same stored ledger in
  the same order.
\<close>

theorem ingestion_determined_up_to_the_clock:
  "unstamped (update_donations now1 known f batch) = unstamped (update_donations now2 known f batch)"
  by (simp add: unstamped_update_donations)

text \<open>
  Two runs a second apart agree once the stamps are taken out.
\<close>

theorem ingestion_determined_up_to_the_clock_witness:
  "unstamped (update_donations (\<lambda>n. ''2024-01-03T00:00:00Z'') {} Absent (JArr [payload_a])) =
   unstamped (update_donations (\<lambda>n. ''2024-01-03T00:00:01Z'') {} Absent (JArr [payload_a])) \<and>
   unstamped (update_donations (\<lambda>n. ''2024-01-03T00:00:00Z'') {} Absent (JArr [payload_a])) =
   ({JStr ''a''}, Content (JArr [record_a]), Inr True)"
proof -
  have "unstamped (update_donations (\<lambda>n. ''2024-01-03T00:00:00Z'') {} Absent (JArr [payload_a])) =
   ({JStr ''a''}, Content (JArr [record_a]), Inr True)"
    by (simp add: eval_defs unstamped_def)
  with ingestion_determined_up_to_the_clock
         [of "\<lambda>n. ''2024-01-03T00:00:00Z''" "{}" Absent "JArr [payload_a]"
             "\<lambda>n. ''2024-01-03T00:00:01Z''"]
  show ?thesis by simp
qed

text \<open>
  Against the claim as it is written: the same two runs, stamps left in, differ.
\<close>

theorem recorded_at_follows_the_clock:
  "update_donations (\<lambda>n. ''2024-01-03T00:00:00Z'') {} Absent (JArr [payload_a]) \<noteq>
   update_donations (\<lambda>n. ''2024-01-03T00:00:01Z'') {} Absent (JArr [payload_a])"
  by (simp add: eval_defs)







text \<open>
  Claim C8. After every ingest that returns \<^verbatim>\<open>True\<close> the ledger is sorted by
  \<^verbatim>\<open>completed_at\<close>, newest first, a record without one sorting as the empty
  string, last. For a call of either variant that returns \<^verbatim>\<open>True\<close>: every stored
  record is a dict; the sort key of each record may stand before that of the next;
  of two records of which one has a string or a number as its key, the earlier one's
  key is not less than the later one's, so that a ledger with a string key has only
  string keys and descends throughout; and behind a record whose key is the empty
  string every key is the empty string. A record that lacks \<^verbatim>\<open>completed_at\<close> has
  the empty string as its key. Such calls exist: on a ledger file that reads as records
  with string keys, and a batch of well-formed payloads of which one is new, the call
  returns \<^verbatim>\<open>True\<close>.
\<close>

theorem ledger_sorted_newest_first:
  "(ingest v known f batch = (known', f', Inr True) \<longrightarrow>
      (\<forall>r\<in>set (ledger_of f'). \<exists>kvs. r = JObj kvs) \<and>
      successively key_ge (map completed_at_key (ledger_of f')) \<and>
      (\<forall>i j. i < j \<and> j < length (ledger_of f') \<and>
             (plain_key (completed_at_key (ledger_of f' ! i)) \<or> plain_key (completed_at_key (ledger_of f' ! j)))
         \<longrightarrow> py_lt (completed_at_key (ledger_of f' ! i)) (completed_at_key (ledger_of f' ! j)) = Inr False) \<and>
      (\<forall>i j. i < j \<and> j < length (ledger_of f') \<and> completed_at_key (ledger_of f' ! i) = JStr []
         \<longrightarrow> completed_at_key (ledger_of f' ! j) = JStr [])) \<and>
   (\<forall>kvs. map_of kvs ''completed_at'' = None \<longrightarrow> completed_at_key (JObj kvs) = JStr []) \<and>
   (read_or_empty f = Inr (JArr xs) \<and> list_all timed_record xs \<and>
    list_all well_formed_payload ds \<and>
    find (\<lambda>d. truthy (id_of d) \<and> id_key d = k) ds = Some d0 \<and> k \<notin> known
      \<longrightarrow> (\<exists>known' f'. ingest v known f (JArr ds) = (known', f', Inr True)))"
proof -
  have A: "(\<forall>r\<in>set (ledger_of f'). \<exists>kvs. r = JObj kvs) \<and>
      successively key_ge (map completed_at_key (ledger_of f')) \<and>
      (\<forall>i j. i < j \<and> j < length (ledger_of f') \<and>
             (plain_key (completed_at_key (ledger_of f' ! i)) \<or> plain_key (completed_at_key (ledger_of f' ! j)))
         \<longrightarrow> py_lt (completed_at_key (ledger_of f' ! i)) (completed_at_key (ledger_of f' ! j)) = Inr False) \<and>
      (\<forall>i j. i < j \<and> j < length (ledger_of f') \<and> completed_at_key (ledger_of f' ! i) = JStr []
         \<longrightarrow> completed_at_key (ledger_of f' ! j) = JStr [])"
    if "ingest v known f batch = (known', f', Inr True)"
  proof -
    from ingest_True_saved[OF that] obtain e' ys where
      S: "sort_by_completed_at e' = Inr (JArr ys)" "f' = Content (JArr ys)" by blast
    from sort_by_completed_at_sorted[OF S(1)] S(2)
    have C: "\<forall>r\<in>set (ledger_of f'). \<exists>kvs. r = JObj kvs"
      "successively key_ge (map completed_at_key (ledger_of f'))" by simp_all
    from C chain_sorted_facts[OF C(2)] show ?thesis by blast
  qed
  have B: "\<forall>kvs. map_of kvs ''completed_at'' = None \<longrightarrow> completed_at_key (JObj kvs) = JStr []"
    by (simp add: dict_get_def)
  have E: "\<exists>known' f'. ingest v known f (JArr ds) = (known', f', Inr True)"
    if "read_or_empty f = Inr (JArr xs) \<and> list_all timed_record xs \<and>
        list_all well_formed_payload ds \<and>
        find (\<lambda>d. truthy (id_of d) \<and> id_key d = k) ds = Some d0 \<and> k \<notin> known"
    using that ingest_well_formed[of f xs ds k d0 known v] by blast
  from A B E show ?thesis by blast
qed

text \<open>
  A stored record without \<^verbatim>\<open>completed_at\<close> and a batch of donations \<open>a\<close> and
  \<open>b\<close>: the ledger saved is \<open>b\<close>, \<open>a\<close>, then the record without a time.
\<close>

theorem ledger_sorted_newest_first_witness:
  "ingest Monitor {JStr ''z''} (Content (JArr [record_untimed])) (JArr [payload_a, payload_b])
     = ({JStr ''z'', JStr ''a'', JStr ''b''},
        Content (JArr [record_b, record_a, record_untimed]), Inr True) \<and>
   map completed_at_key [record_b, record_a, record_untimed]
     = [JStr ''2024-01-02'', JStr ''2024-01-01'', JStr []] \<and>
   successively key_ge (map completed_at_key [record_b, record_a, record_untimed]) \<and>
   py_lt (completed_at_key record_b) (completed_at_key record_a) = Inr False \<and>
   py_lt (completed_at_key record_a) (completed_at_key record_untimed) = Inr False \<and>
   map_of [(''id'', JStr ''z''), (''amount'', JNum 1)] ''completed_at'' = None \<and>
   read_or_empty (Content (JArr [record_untimed])) = Inr (JArr [record_untimed]) \<and>
   list_all timed_record [record_untimed] \<and>
   list_all well_formed_payload [payload_a, payload_b] \<and>
   find (\<lambda>d. truthy (id_of d) \<and> id_key d = JStr ''a'') [payload_a, payload_b] = Some payload_a"
proof -
  have e: "ingest Monitor {JStr ''z''} (Content (JArr [record_untimed]))
             (JArr [payload_a, payload_b])
           = ({JStr ''z'', JStr ''a'', JStr ''b''},
              Content (JArr [record_b, record_a, record_untimed]), Inr True)"
    by (simp add: eval_defs record_b_def record_untimed_def insert_commute)
  have k: "map completed_at_key [record_b, record_a, record_untimed]
             = [JStr ''2024-01-02'', JStr ''2024-01-01'', JStr []]"
    by (simp add: record_b_def record_a_def record_untimed_def dict_get_def)
  have h: "read_or_empty (Content (JArr [record_untimed])) = Inr (JArr [record_untimed]) \<and>
           list_all timed_record [record_untimed] \<and>
           list_all well_formed_payload [payload_a, payload_b] \<and>
           find (\<lambda>d. truthy (id_of d) \<and> id_key d = JStr ''a'') [payload_a, payload_b]
             = Some payload_a \<and> JStr ''a'' \<notin> {JStr ''z''}"
    by (simp add: record_untimed_def payload_a_def payload_b_def dict_get_def id_key_def)
  note t = ledger_sorted_newest_first [of Monitor "{JStr ''z''}" "Content (JArr [record_untimed])"
      "JArr [payload_a, payload_b]" "{JStr ''z'', JStr ''a'', JStr ''b''}"
      "Content (JArr [record_b, record_a, record_untimed])"
      "[record_untimed]" "[payload_a, payload_b]" "JStr ''a''" payload_a]
  from t e have s: "successively key_ge (map completed_at_key [record_b, record_a, record_untimed])"
    by simp
  from t e have p: "\<forall>i j. i < j \<and>
             j < length (ledger_of (Content (JArr [record_b, record_a, record_untimed]))) \<and>
             (plain_key (completed_at_key
                (ledger_of (Content (JArr [record_b, record_a, record_untimed])) ! i)) \<or>
              plain_key (completed_at_key
                (ledger_of (Content (JArr [record_b, record_a, record_untimed])) ! j)))
         \<longrightarrow> py_lt (completed_at_key
                    (ledger_of (Content (JArr [record_b, record_a, record_untimed])) ! i))
                  (completed_at_key
                    (ledger_of (Content (JArr [record_b, record_a, record_untimed])) ! j))
               = Inr False"
    by blast
  have pk: "plain_key (completed_at_key record_a)"
    by (simp add: record_a_def dict_get_def plain_key_def)
  from p[rule_format, of 0 1] pk
  have p1: "py_lt (completed_at_key record_b) (completed_at_key record_a) = Inr False" by simp
  from p[rule_format, of 1 2] pk
  have p2: "py_lt (completed_at_key record_a) (completed_at_key record_untimed) = Inr False" by simp
  from e k s p1 p2 h show ?thesis by simp
qed

text \<open>
  Claim C9. Ingest skips every entry whose id is falsy, the empty string and 0
  included: such an entry is never projected into a record, never appended to the
  ledger and never added to the set of known ids. Whatever a call does, a falsy id in
  the set afterwards was there before, and a record with a falsy id in the stored
  ledger afterwards was there before.
\<close>

theorem falsy_ids_are_skipped:
  assumes "ingest v known f batch = (known', f', out)"
  shows "\<not> truthy (JStr '''') \<and> \<not> truthy (JNum 0) \<and>
         (\<forall>x. \<not> truthy x \<and> hashable x \<and> py_key x \<in> known' \<longrightarrow> py_key x \<in> known) \<and>
         (\<forall>r\<in>set (ledger_of f'). \<not> truthy (id_of r) \<longrightarrow> r \<in> set (ledger_of f))"
proof -
  from ingest_has_shape[of known f v batch] assms obtain added where
    A: "known' = known \<union> id_key ` set added" "fresh_records known added"
       "f' = f \<or> (\<exists>ys. f' = Content (JArr ys) \<and> mset ys = mset (ledger_of f) + mset added)"
    unfolding ingest_shape_def by auto
  have K: "py_key x \<in> known" if "\<not> truthy x" "hashable x" "py_key x \<in> known'" for x
  proof (rule ccontr)
    assume "py_key x \<notin> known"
    with that A(1) obtain r where r: "r \<in> set added" "py_key x = id_key r" by auto
    with A(2) have "truthy (id_of r)" "hashable (id_of r)" by (auto simp: fresh_records_def)
    with r(2) that show False using py_key_truthy[of x "id_of r"] by (simp add: id_key_def)
  qed
  have L: "r \<in> set (ledger_of f)" if "r \<in> set (ledger_of f')" "\<not> truthy (id_of r)" for r
    using A(3)
  proof
    assume "f' = f" with that show ?thesis by simp
  next
    assume "\<exists>ys. f' = Content (JArr ys) \<and> mset ys = mset (ledger_of f) + mset added"
    then obtain ys where Y: "f' = Content (JArr ys)" "mset ys = mset (ledger_of f @ added)" by auto
    then have "set ys = set (ledger_of f) \<union> set added" by (metis mset_eq_setD set_append)
    with that Y(1) A(2) show ?thesis by (auto simp: fresh_records_def)
  qed
  show ?thesis using K L by auto
qed

text \<open>
  A batch of an empty-string id, a zero id and donation \<open>a\<close>: only \<open>a\<close> is stored
  and known.
\<close>

theorem falsy_ids_are_skipped_witness:
  "ingest Monitor {} Absent (JArr [JObj [(''id'', JStr '''')], JObj [(''id'', JNum 0)], payload_a])
     = ({JStr ''a''}, Content (JArr [record_a]), Inr True) \<and>
   py_key (JStr '''') \<notin> {JStr ''a''} \<and> py_key (JNum 0) \<notin> {JStr ''a''} \<and>
   list_all (\<lambda>r. truthy (id_of r)) [record_a]"
proof -
  have e: "ingest Monitor {} Absent
             (JArr [JObj [(''id'', JStr '''')], JObj [(''id'', JNum 0)], payload_a])
           = ({JStr ''a''}, Content (JArr [record_a]), Inr True)"
    by (simp add: eval_defs)
  from falsy_ids_are_skipped [OF e] show ?thesis
    using e by (auto simp: record_a_def dict_get_def)
qed




end
